theory Spec2Isabelle
  imports Main
begin

section \<open>The board engine of sweeper.py\<close>

text \<open>
  The class \<^verbatim>\<open>Game\<close> of \<^verbatim>\<open>sweeper.py\<close> is embedded as a record with one field per
  attribute, and every method as a function from the record to a result. A method that
  can raise returns \<open>error + 'a\<close>, with \<open>Inl\<close> for the exception; a method that mutates
  the object returns the new record.

  Coordinates, sizes and the mine count are Python integers, hence \<open>int\<close>. The three
  Python sets are duplicate-free lists (\<open>add\<close> is \<open>List.insert\<close>, \<open>discard\<close> is
  \<open>removeAll\<close>, membership is membership in \<open>set\<close>); the order of the list is
  not the order of iteration. The order in which Python iterates a set is left open by
  the language, and it decides which read of the grid comes first, hence whether a loop
  returns or raises on a board that is not square. The two loops over a set, in
  \<^verbatim>\<open>is_won\<close> and in \<^verbatim>\<open>_flag_all_mines\<close>, therefore take a key \<open>k\<close> and iterate the
  elements sorted by it; every order of the two sets is that of some key (lemma
  \<open>iteration_orders_have_key\<close>), and every property is proved for all keys.
  The grid of opened cells is a list of rows, read and
  written with Python's indexing, where a negative index counts from the end and an
  index outside \<open>[-n, n)\<close> raises \<^verbatim>\<open>IndexError\<close>.
\<close>

datatype GameState = idle | playing | won | lost

datatype error = ValueError | IndexError | AssertionError

type_synonym point = "int \<times> int"

record Game =
  size_wh :: "int \<times> int"
  mine_count :: int
  state :: GameState
  mine_points :: "point list"
  questioned_points :: "point list"
  flagged_points :: "point list"
  last_click :: "point option"
  cell_opened_grid :: "bool list list"

text \<open>\<^verbatim>\<open>Game.__init__\<close>: the grid has \<open>size[1]\<close> rows of \<open>size[0]\<close> entries each.\<close>

definition init :: "int \<times> int \<Rightarrow> int \<Rightarrow> Game" where
  "init sz mc =
     \<lparr> size_wh = sz, mine_count = mc, state = idle,
       mine_points = [], questioned_points = [], flagged_points = [],
       last_click = None,
       cell_opened_grid = replicate (nat (snd sz)) (replicate (nat (fst sz)) False) \<rparr>"

subsection \<open>Python list indexing\<close>

definition py_index :: "'a list \<Rightarrow> int \<Rightarrow> error + nat" where
  "py_index xs i =
     (let n = int (length xs); j = (if i < 0 then n + i else i)
      in if 0 \<le> j \<and> j < n then Inr (nat j) else Inl IndexError)"

definition is_opened :: "Game \<Rightarrow> point \<Rightarrow> error + bool" where
  "is_opened g p =
     (case py_index (cell_opened_grid g) (fst p) of
        Inl e \<Rightarrow> Inl e
      | Inr i \<Rightarrow>
          (case py_index (cell_opened_grid g ! i) (snd p) of
             Inl e \<Rightarrow> Inl e
           | Inr j \<Rightarrow> Inr (cell_opened_grid g ! i ! j)))"

definition set_opened :: "Game \<Rightarrow> point \<Rightarrow> error + Game" where
  "set_opened g p =
     (case py_index (cell_opened_grid g) (fst p) of
        Inl e \<Rightarrow> Inl e
      | Inr i \<Rightarrow>
          (case py_index (cell_opened_grid g ! i) (snd p) of
             Inl e \<Rightarrow> Inl e
           | Inr j \<Rightarrow>
               Inr (g\<lparr>cell_opened_grid :=
                        (cell_opened_grid g)[i := (cell_opened_grid g ! i)[j := True]]\<rparr>)))"

subsection \<open>Queries\<close>

definition is_flagged :: "Game \<Rightarrow> point \<Rightarrow> bool" where
  "is_flagged g p = (p \<in> set (flagged_points g))"

definition is_questioned :: "Game \<Rightarrow> point \<Rightarrow> bool" where
  "is_questioned g p = (p \<in> set (questioned_points g))"

definition is_mine :: "Game \<Rightarrow> point \<Rightarrow> bool" where
  "is_mine g p = (p \<in> set (mine_points g))"

definition in_range :: "Game \<Rightarrow> point \<Rightarrow> bool" where
  "in_range g p =
     ((0 \<le> fst p \<and> fst p < fst (size_wh g)) \<and> (0 \<le> snd p \<and> snd p < snd (size_wh g)))"

text \<open>
  \<^verbatim>\<open>proximity_count\<close> sums a boolean over the three by three block around the point,
  the point itself included.
\<close>

definition proximity_count :: "Game \<Rightarrow> point \<Rightarrow> int" where
  "proximity_count g p =
     (if is_mine g p then - 1
      else sum_list
             (concat (map (\<lambda>x. map (\<lambda>y. if (if in_range g (x, y) then is_mine g (x, y) else False)
                                          then 1 else 0)
                                    [snd p - 1 ..  snd p + 1])
                          [fst p - 1 .. fst p + 1])))"

text \<open>The comprehension \<^verbatim>\<open>(x, y) for x in range(size[0]) for y in range(size[1])\<close>.\<close>

definition board_points :: "Game \<Rightarrow> point list" where
  "board_points g =
     concat (map (\<lambda>x. map (\<lambda>y. (x, y)) [0 .. snd (size_wh g) - 1]) [0 .. fst (size_wh g) - 1])"

subsection \<open>Marks\<close>

definition flag :: "Game \<Rightarrow> point \<Rightarrow> error + Game" where
  "flag g p =
     (case is_opened g p of
        Inl e \<Rightarrow> Inl e
      | Inr b \<Rightarrow>
          if b then Inr g
          else Inr (g\<lparr>flagged_points := List.insert p (flagged_points g),
                      questioned_points := removeAll p (questioned_points g)\<rparr>))"

definition unflag :: "Game \<Rightarrow> point \<Rightarrow> Game" where
  "unflag g p =
     g\<lparr>questioned_points := removeAll p (questioned_points g),
       flagged_points := removeAll p (flagged_points g)\<rparr>"

definition question :: "Game \<Rightarrow> point \<Rightarrow> Game" where
  "question g p =
     g\<lparr>questioned_points := List.insert p (questioned_points g),
       flagged_points := removeAll p (flagged_points g)\<rparr>"

definition unquestion :: "Game \<Rightarrow> point \<Rightarrow> Game" where
  "unquestion g p =
     g\<lparr>questioned_points := removeAll p (questioned_points g),
       flagged_points := removeAll p (flagged_points g)\<rparr>"

subsection \<open>Winning\<close>

text \<open>
  The loop of \<^verbatim>\<open>is_won\<close> over the points that are not mines: it returns \<open>False\<close> at the
  first point that is not opened, and raises where \<^verbatim>\<open>is_opened\<close> raises. The set
  \<^verbatim>\<open>set(...) - self.mine_points\<close> is iterated in the order of the key \<open>k\<close>, and so is
  \<^verbatim>\<open>self.mine_points\<close> in \<^verbatim>\<open>_flag_all_mines\<close>.
\<close>

fun every_opened :: "Game \<Rightarrow> point list \<Rightarrow> error + bool" where
  "every_opened g [] = Inr True"
| "every_opened g (p # ps) =
     (case is_opened g p of
        Inl e \<Rightarrow> Inl e
      | Inr b \<Rightarrow> if \<not> b then Inr False else every_opened g ps)"

definition non_mine_points :: "Game \<Rightarrow> point list" where
  "non_mine_points g = filter (\<lambda>p. p \<notin> set (mine_points g)) (board_points g)"

definition is_won :: "(point \<Rightarrow> nat) \<Rightarrow> Game \<Rightarrow> error + (bool \<times> Game)" where
  "is_won k g =
     (if state g = won then Inr (True, g)
      else if state g = lost then Inr (False, g)
      else (case every_opened g (sort_key k (non_mine_points g)) of
              Inl e \<Rightarrow> Inl e
            | Inr b \<Rightarrow> if \<not> b then Inr (False, g) else Inr (True, g\<lparr>state := won\<rparr>)))"

fun flag_each :: "point list \<Rightarrow> Game \<Rightarrow> error + Game" where
  "flag_each [] g = Inr g"
| "flag_each (p # ps) g = (case flag g p of Inl e \<Rightarrow> Inl e | Inr g' \<Rightarrow> flag_each ps g')"

definition flag_all_mines :: "(point \<Rightarrow> nat) \<Rightarrow> Game \<Rightarrow> error + Game" where
  "flag_all_mines k g = flag_each (sort_key k (mine_points g)) g"

subsection \<open>Mine placement\<close>

text \<open>
  \<^verbatim>\<open>self.random\<close> is represented by the sequence \<open>r\<close> of its outcomes: the \<open>i\<close>-th call
  \<^verbatim>\<open>randint(0, n - 1)\<close> of a generation returns \<open>r i mod n\<close> when \<open>n\<close> is positive, so
  that every behaviour of the generator is the behaviour of some \<open>r\<close>, and raises
  \<^verbatim>\<open>ValueError\<close> on the empty range \<open>n = 0\<close>. The constant \<^verbatim>\<open>DEBUG_BOARD\<close> is \<open>False\<close> in the
  source, so its branch is left out. The list of disallowed points is optional.
\<close>

fun place_mines ::
  "nat \<Rightarrow> nat \<Rightarrow> (nat \<Rightarrow> nat) \<Rightarrow> point list \<Rightarrow> point list \<Rightarrow> error + (point list \<times> point list)"
where
  "place_mines 0 i r possible mines = Inr (possible, mines)"
| "place_mines (Suc n) i r possible mines =
     (if possible = [] then Inl ValueError
      else let point_index = r i mod length possible
           in place_mines n (Suc i) r
                (take point_index possible @ drop (Suc point_index) possible)
                (List.insert (possible ! point_index) mines))"

definition possible_points :: "Game \<Rightarrow> point list option \<Rightarrow> point list" where
  "possible_points g disallowed =
     filter (\<lambda>p. case disallowed of None \<Rightarrow> True | Some ds \<Rightarrow> p \<notin> set ds) (board_points g)"

definition generate_board :: "Game \<Rightarrow> point list option \<Rightarrow> (nat \<Rightarrow> nat) \<Rightarrow> error + Game" where
  "generate_board g disallowed r =
     (case place_mines (nat (mine_count g)) 0 r (possible_points g disallowed) [] of
        Inl e \<Rightarrow> Inl e
      | Inr (possible, mines) \<Rightarrow>
          if int (length possible) + int (length mines)
               \<noteq> fst (size_wh g) * snd (size_wh g)
                   - (case disallowed of None \<Rightarrow> 0 | Some ds \<Rightarrow> int (length ds))
          then Inl AssertionError
          else Inr (g\<lparr>mine_points := mines, state := playing, last_click := None\<rparr>))"

subsection \<open>Opening a cell\<close>

definition neighbours :: "point \<Rightarrow> point list" where
  "neighbours p =
     concat (map (\<lambda>x_off. concat (map (\<lambda>y_off. if x_off = 0 \<and> y_off = 0 then []
                                               else [(fst p + x_off, snd p + y_off)])
                                       [- 1, 0, 1]))
                 [- 1, 0, 1])"

text \<open>The last two lines of the loop body: \<^verbatim>\<open>if self.is_won(): self._flag_all_mines()\<close>.\<close>

definition check_won :: "(point \<Rightarrow> nat) \<Rightarrow> Game \<Rightarrow> error + Game" where
  "check_won k g =
     (case is_won k g of
        Inl e \<Rightarrow> Inl e
      | Inr (w, g') \<Rightarrow> if w then flag_all_mines k g' else Inr g')"

text \<open>
  One turn of the \<^verbatim>\<open>while\<close> loop of \<^verbatim>\<open>open\<close> on the point taken from the front of the
  worklist: the new board and the points appended to the worklist.
\<close>

definition visit :: "(point \<Rightarrow> nat) \<Rightarrow> Game \<Rightarrow> point \<Rightarrow> error + (Game \<times> point list)" where
  "visit k g p =
     (case is_opened g p of
        Inl e \<Rightarrow> Inl e
      | Inr b \<Rightarrow>
          if b then Inr (g, [])
          else
            (let inside = (\<not> is_mine g p \<and> \<not> is_flagged g p)
             in case (if inside then set_opened g p else Inr g) of
                  Inl e \<Rightarrow> Inl e
                | Inr g1 \<Rightarrow>
                    (let new_points =
                           (if inside \<and> proximity_count g1 p = 0
                            then filter (in_range g1) (neighbours p) else [])
                     in case check_won k g1 of
                          Inl e \<Rightarrow> Inl e
                        | Inr g2 \<Rightarrow> Inr (g2, new_points))))"

text \<open>The number of closed cells of the grid, which bounds the work of the flood fill.\<close>

definition closed_cells :: "Game \<Rightarrow> nat" where
  "closed_cells g = sum_list (map (\<lambda>row. length (filter Not row)) (cell_opened_grid g))"

function open_loop :: "(point \<Rightarrow> nat) \<Rightarrow> Game \<Rightarrow> point list \<Rightarrow> error + Game" where
  "open_loop k g [] = Inr g"
| "open_loop k g (p # stack) =
     (case visit k g p of
        Inl e \<Rightarrow> Inl e
      | Inr (g', new_points) \<Rightarrow> open_loop k g' (stack @ new_points))"
  by pat_completeness auto

text \<open>\<^verbatim>\<open>Game.open\<close>. The attribute \<^verbatim>\<open>last_click\<close> is written before the first check.\<close>

definition "open" :: "(point \<Rightarrow> nat) \<Rightarrow> Game \<Rightarrow> point \<Rightarrow> error + Game" where
  "open k g point =
     (if state g \<noteq> playing then Inl ValueError
      else
        (let g0 = g\<lparr>last_click := Some point\<rparr>
         in case is_opened g0 point of
              Inl e \<Rightarrow> Inl e
            | Inr b \<Rightarrow>
                if b then Inr g0
                else if is_flagged g0 point then Inr g0
                else if is_mine g0 point then Inr (g0\<lparr>state := lost\<rparr>)
                else open_loop k g0 [point]))"

subsection \<open>The caller's guard\<close>

text \<open>
  \<^verbatim>\<open>start_game\<close> of \<^verbatim>\<open>main.py\<close>, the only caller of \<^verbatim>\<open>generate_board\<close>, without its timers:
  it refuses a game that has left the idle state.
\<close>

definition start_game :: "Game \<Rightarrow> point \<Rightarrow> (nat \<Rightarrow> nat) \<Rightarrow> error + Game" where
  "start_game g point r =
     (if state g \<noteq> idle then Inl ValueError else generate_board g (Some [point]) r)"

subsection \<open>Notions used to state the properties\<close>

text \<open>The key that sorts the elements of a set into the order of the list \<open>ys\<close>.\<close>

definition order_key :: "point list \<Rightarrow> point \<Rightarrow> nat" where
  "order_key ys p = length (takeWhile (\<lambda>q. q \<noteq> p) ys)"

text \<open>A cell counts as opened when \<^verbatim>\<open>is_opened\<close> returns \<open>True\<close> on it.\<close>

definition opened :: "Game \<Rightarrow> point \<Rightarrow> bool" where
  "opened g p = (is_opened g p = Inr True)"

definition square :: "Game \<Rightarrow> bool" where
  "square g = (fst (size_wh g) = snd (size_wh g))"

text \<open>Every in-range point that is not a mine is opened.\<close>

definition all_opened :: "Game \<Rightarrow> bool" where
  "all_opened g = (\<forall>q. in_range g q \<and> \<not> is_mine g q \<longrightarrow> opened g q)"

text \<open>What \<^verbatim>\<open>is_won\<close> answers when it returns.\<close>

definition wins :: "Game \<Rightarrow> bool" where
  "wins g = (state g = won \<or> (state g \<noteq> lost \<and> all_opened g))"

text \<open>
  A cell the flood fill opens when it visits it: closed, not a mine and not flagged.
\<close>

definition fillable :: "Game \<Rightarrow> point \<Rightarrow> bool" where
  "fillable g q = (is_opened g q = Inr False \<and> \<not> is_mine g q \<and> \<not> is_flagged g q)"

text \<open>
  The cells a flood fill from \<open>p\<close> reaches on the board \<open>g\<close>: \<open>p\<close> itself, and every
  in-range neighbour of a reached cell of proximity count zero; a cell is reached only
  if it is closed, not a mine and not flagged, so the region neither contains nor
  passes through a cell that is already opened or flagged.
\<close>

inductive_set fill :: "Game \<Rightarrow> point \<Rightarrow> point set" for g :: Game and p :: point where
  fill_start: "fillable g p \<Longrightarrow> p \<in> fill g p"
| fill_step:
    "r \<in> fill g p \<Longrightarrow> proximity_count g r = 0 \<Longrightarrow> q \<in> set (neighbours r) \<Longrightarrow>
     in_range g q \<Longrightarrow> fillable g q \<Longrightarrow> q \<in> fill g p"

text \<open>
  The boards a caller can build: a new board, generation once from the idle state (as
  \<^verbatim>\<open>start_game\<close> does), and the engine's operations at in-range points. A call that
  raises ends the run: no board is taken from it.
\<close>

inductive reachable :: "Game \<Rightarrow> bool" where
  reach_init: "reachable (init sz mc)"
| reach_generate:
    "reachable g \<Longrightarrow> state g = idle \<Longrightarrow> generate_board g d r = Inr g' \<Longrightarrow> reachable g'"
| reach_open: "reachable g \<Longrightarrow> in_range g p \<Longrightarrow> open k g p = Inr g' \<Longrightarrow> reachable g'"
| reach_flag: "reachable g \<Longrightarrow> in_range g p \<Longrightarrow> flag g p = Inr g' \<Longrightarrow> reachable g'"
| reach_unflag: "reachable g \<Longrightarrow> reachable (unflag g p)"
| reach_question: "reachable g \<Longrightarrow> in_range g p \<Longrightarrow> reachable (question g p)"
| reach_unquestion: "reachable g \<Longrightarrow> reachable (unquestion g p)"
| reach_is_won: "reachable g \<Longrightarrow> is_won k g = Inr (b, g') \<Longrightarrow> reachable g'"

text \<open>
  The boards any sequence of the engine's operations builds from a new board, with the
  points in range: generation is taken in every state, as the engine accepts it.
\<close>

inductive engine_reachable :: "Game \<Rightarrow> bool" where
  er_init: "engine_reachable (init sz mc)"
| er_generate: "engine_reachable g \<Longrightarrow> generate_board g d r = Inr g' \<Longrightarrow> engine_reachable g'"
| er_open: "engine_reachable g \<Longrightarrow> in_range g p \<Longrightarrow> open k g p = Inr g' \<Longrightarrow> engine_reachable g'"
| er_flag: "engine_reachable g \<Longrightarrow> in_range g p \<Longrightarrow> flag g p = Inr g' \<Longrightarrow> engine_reachable g'"
| er_unflag: "engine_reachable g \<Longrightarrow> engine_reachable (unflag g p)"
| er_question: "engine_reachable g \<Longrightarrow> in_range g p \<Longrightarrow> engine_reachable (question g p)"
| er_unquestion: "engine_reachable g \<Longrightarrow> engine_reachable (unquestion g p)"
| er_is_won: "engine_reachable g \<Longrightarrow> is_won k g = Inr (b, g') \<Longrightarrow> engine_reachable g'"

subsection \<open>Invariants\<close>

text \<open>The shape \<^verbatim>\<open>__init__\<close> gives the grid, which \<^verbatim>\<open>_set_opened\<close> keeps.\<close>

definition grid_shape :: "Game \<Rightarrow> bool" where
  "grid_shape g =
     (length (cell_opened_grid g) = nat (snd (size_wh g)) \<and>
      (\<forall>row \<in> set (cell_opened_grid g). length row = nat (fst (size_wh g))))"

definition mines_in_range :: "Game \<Rightarrow> bool" where
  "mines_in_range g = (\<forall>m \<in> set (mine_points g). in_range g m)"

definition mines_closed :: "Game \<Rightarrow> bool" where
  "mines_closed g = (\<forall>m \<in> set (mine_points g). \<not> opened g m)"

text \<open>Every in-range point can be read from the grid.\<close>

definition readable :: "Game \<Rightarrow> bool" where
  "readable g = (\<forall>q. in_range g q \<longrightarrow> (\<exists>b. is_opened g q = Inr b))"

text \<open>What every sequence of operations keeps, and what generation once adds to it.\<close>

definition base_inv :: "Game \<Rightarrow> bool" where
  "base_inv g = (grid_shape g \<and> mines_in_range g \<and> (state g = won \<longrightarrow> all_opened g))"

definition board_inv :: "Game \<Rightarrow> bool" where
  "board_inv g =
     (grid_shape g \<and> mines_in_range g \<and> mines_closed g \<and>
      (state g = won \<longrightarrow> all_opened g) \<and>
      (state g = idle \<longrightarrow> (\<forall>q. in_range g q \<longrightarrow> \<not> opened g q)))"

definition marks_inv :: "Game \<Rightarrow> bool" where
  "marks_inv g =
     (set (flagged_points g) \<inter> set (questioned_points g) = {} \<and>
      (\<forall>p \<in> set (flagged_points g) \<union> set (questioned_points g). in_range g p) \<and>
      (\<forall>p \<in> set (flagged_points g). \<not> opened g p))"

text \<open>
  The invariant of the flood fill started at \<open>p\<close> on the board \<open>g0\<close>, for the current
  board \<open>g\<close> and worklist: the cells opened so far lie in the region, every worklist
  entry is \<open>p\<close> or a neighbour of a region cell of proximity count zero, and every
  neighbour of an opened region cell of proximity count zero is opened, waiting in the
  worklist, a mine or flagged.
\<close>

definition fill_inv :: "Game \<Rightarrow> point \<Rightarrow> Game \<Rightarrow> point list \<Rightarrow> bool" where
  "fill_inv g0 p g stack =
     (board_inv g \<and> readable g \<and> state g \<noteq> idle \<and>
      size_wh g = size_wh g0 \<and> mine_points g = mine_points g0 \<and>
      (\<forall>q. \<not> is_mine g0 q \<longrightarrow> is_flagged g q = is_flagged g0 q) \<and>
      (\<forall>q. is_flagged g0 q \<longrightarrow> is_flagged g q) \<and>
      (\<forall>q \<in> set stack. in_range g0 q \<and>
          (q = p \<or> (\<exists>r \<in> fill g0 p. proximity_count g0 r = 0 \<and> q \<in> set (neighbours r)))) \<and>
      (\<forall>q. in_range g0 q \<and> opened g0 q \<longrightarrow> opened g q) \<and>
      (\<forall>q. in_range g0 q \<and> opened g q \<longrightarrow> opened g0 q \<or> q \<in> fill g0 p) \<and>
      (\<forall>r \<in> fill g0 p. opened g r \<and> proximity_count g0 r = 0 \<longrightarrow>
          (\<forall>q \<in> set (neighbours r). in_range g0 q \<longrightarrow>
               opened g q \<or> q \<in> set stack \<or> is_mine g0 q \<or> is_flagged g0 q)) \<and>
      (p \<in> set stack \<or> opened g p))"

section \<open>The flood fill terminates\<close>

text \<open>
  Every turn of the loop either opens a closed cell or appends nothing to the worklist,
  so the number of closed cells and the length of the worklist decrease lexicographically.
\<close>

lemma py_index_Inr: "py_index xs i = Inr j \<Longrightarrow> j < length xs"
  by (auto simp: py_index_def Let_def split: if_splits)

lemma is_opened_grid_only:
  "cell_opened_grid g' = cell_opened_grid g \<Longrightarrow> is_opened g' p = is_opened g p"
  unfolding is_opened_def by (erule ssubst) (rule refl)

lemma closed_row_update:
  assumes "j < length row" "\<not> row ! j"
  shows "length (filter Not (row[j := True])) < length (filter Not row)"
proof -
  have a: "row = take j row @ (row ! j) # drop (Suc j) row"
    using assms(1) by (simp add: id_take_nth_drop)
  have b: "row[j := True] = take j row @ True # drop (Suc j) row"
    using assms(1) by (simp add: upd_conv_take_nth_drop)
  have "length (filter Not row) = length (filter Not (take j row)) + 1 + length (filter Not (drop (Suc j) row))"
    by (subst a) (simp add: assms(2))
  moreover have "length (filter Not (row[j := True])) = length (filter Not (take j row)) + length (filter Not (drop (Suc j) row))"
    by (subst b) simp
  ultimately show ?thesis by simp
qed

lemma sum_list_map_update:
  fixes f :: "'a \<Rightarrow> nat"
  assumes "i < length xs" "f y < f (xs ! i)"
  shows "sum_list (map f (xs[i := y])) < sum_list (map f xs)"
proof -
  have a: "xs = take i xs @ (xs ! i) # drop (Suc i) xs"
    using assms(1) by (simp add: id_take_nth_drop)
  have b: "xs[i := y] = take i xs @ y # drop (Suc i) xs"
    using assms(1) by (simp add: upd_conv_take_nth_drop)
  have "sum_list (map f xs) = sum_list (map f (take i xs)) + f (xs ! i) + sum_list (map f (drop (Suc i) xs))"
    by (subst a) simp
  moreover have "sum_list (map f (xs[i := y])) = sum_list (map f (take i xs)) + f y + sum_list (map f (drop (Suc i) xs))"
    by (subst b) simp
  ultimately show ?thesis using assms(2) by simp
qed

lemma set_opened_closed_cells:
  assumes "is_opened g p = Inr False" "set_opened g p = Inr g'"
  shows "closed_cells g' < closed_cells g"
proof -
  from assms(1) obtain i j where i: "py_index (cell_opened_grid g) (fst p) = Inr i"
    and j: "py_index (cell_opened_grid g ! i) (snd p) = Inr j"
    and c: "\<not> cell_opened_grid g ! i ! j"
    by (auto simp: is_opened_def split: sum.splits)
  from assms(2) i j have g': "cell_opened_grid g' = (cell_opened_grid g)[i := (cell_opened_grid g ! i)[j := True]]"
    by (auto simp: set_opened_def)
  have "length (filter Not ((cell_opened_grid g ! i)[j := True])) < length (filter Not (cell_opened_grid g ! i))"
    using j c by (intro closed_row_update py_index_Inr)
  moreover have "i < length (cell_opened_grid g)" using i by (rule py_index_Inr)
  ultimately show ?thesis
    unfolding closed_cells_def g' by (intro sum_list_map_update)
qed

lemma flag_grid: "flag g p = Inr g' \<Longrightarrow> cell_opened_grid g' = cell_opened_grid g"
  by (auto simp: flag_def split: sum.splits if_splits)

lemma flag_each_grid: "flag_each ps g = Inr g' \<Longrightarrow> cell_opened_grid g' = cell_opened_grid g"
  by (induction ps arbitrary: g) (auto split: sum.splits dest: flag_grid)

lemma is_won_grid: "is_won k g = Inr (b, g') \<Longrightarrow> cell_opened_grid g' = cell_opened_grid g"
  by (auto simp: is_won_def split: sum.splits if_splits)

lemma closed_cells_cong: "cell_opened_grid g' = cell_opened_grid g \<Longrightarrow> closed_cells g' = closed_cells g"
  by (simp add: closed_cells_def)

lemma flag_all_mines_grid:
  "flag_all_mines k g = Inr g' \<Longrightarrow> cell_opened_grid g' = cell_opened_grid g"
  unfolding flag_all_mines_def by (rule flag_each_grid)

lemma check_won_cases:
  assumes "check_won k g = Inr g'"
  obtains (not_won) "is_won k g = Inr (False, g')"
  | (won) g1 where "is_won k g = Inr (True, g1)" "flag_all_mines k g1 = Inr g'"
  using assms by (auto simp: check_won_def split: sum.splits if_splits)

lemma check_won_grid: "check_won k g = Inr g' \<Longrightarrow> cell_opened_grid g' = cell_opened_grid g"
  by (erule check_won_cases) (simp_all add: is_won_grid flag_all_mines_grid)

text \<open>What one turn of the loop does, case by case.\<close>

lemma visit_cases:
  assumes "visit k g p = Inr (g', new)"
  obtains
    (skip) "is_opened g p = Inr True" "g' = g" "new = []"
  | (outside) "is_opened g p = Inr False" "is_mine g p \<or> is_flagged g p" "new = []"
       "check_won k g = Inr g'"
  | (inside) g1 where "is_opened g p = Inr False" "\<not> is_mine g p" "\<not> is_flagged g p"
       "set_opened g p = Inr g1"
       "new = (if proximity_count g1 p = 0 then filter (in_range g1) (neighbours p) else [])"
       "check_won k g1 = Inr g'"
proof -
  from assms obtain b where b: "is_opened g p = Inr b"
    by (cases "is_opened g p") (simp_all add: visit_def)
  show thesis
  proof (cases b)
    case True
    with b assms have "g' = g" "new = []" by (simp_all add: visit_def)
    with True b show thesis using skip by simp
  next
    case False
    note nb = this
    show thesis
    proof (cases "is_mine g p \<or> is_flagged g p")
      case True
      with b nb assms have "check_won k g = Inr g'" "new = []"
        by (auto simp: visit_def Let_def split: sum.splits)
      with True b nb show thesis using outside by simp
    next
      case False
      with b nb assms obtain g1 where g1: "set_opened g p = Inr g1"
        by (cases "set_opened g p") (simp_all add: visit_def)
      with False b nb assms
      have "new = (if proximity_count g1 p = 0 then filter (in_range g1) (neighbours p) else [])"
        "check_won k g1 = Inr g'"
        by (auto simp: visit_def Let_def split: sum.splits)
      with False b nb g1 show thesis using inside[of g1] by simp
    qed
  qed
qed

lemma visit_measure:
  assumes "visit k g p = Inr (g', new)"
  shows "closed_cells g' < closed_cells g \<or> (closed_cells g' = closed_cells g \<and> new = [])"
  using assms
proof (cases rule: visit_cases)
  case skip then show ?thesis by simp
next
  case outside
  from check_won_grid[OF outside(4)] have "closed_cells g' = closed_cells g"
    by (rule closed_cells_cong)
  with outside show ?thesis by simp
next
  case (inside g1)
  from check_won_grid[OF inside(6)] have "closed_cells g' = closed_cells g1"
    by (rule closed_cells_cong)
  with set_opened_closed_cells[OF inside(1,4)] show ?thesis by simp
qed

termination open_loop
proof (relation "measures [\<lambda>(k, g, stack). closed_cells g, \<lambda>(k, g, stack). length stack]")
  show "wf (measures [\<lambda>(k, g, stack). closed_cells g, \<lambda>(k, g, stack). length stack])" by simp
next
  fix k g p stack x g' new
  assume "visit k g p = Inr x" "(g', new) = x"
  then have "visit k g p = Inr (g', new)" by simp
  from visit_measure[OF this]
  show "((k, g', stack @ new), (k, g, p # stack)) \<in> measures [\<lambda>(k, g, stack). closed_cells g, \<lambda>(k, g, stack). length stack]"
    by auto
qed

section \<open>Neighbours and the proximity count\<close>

lemma upto_three: "[a - 1 .. a + 1] = [a - 1, a, a + (1::int)]"
proof -
  have "[a - 1 .. a + 1] = (a - 1) # [a .. a + 1]" by (subst upto.simps) simp
  also have "[a .. a + 1] = a # [a + 1 .. a + 1]" by (subst upto.simps) simp
  finally show ?thesis by simp
qed

lemma neighbours_eq:
  "neighbours p =
     [(fst p - 1, snd p - 1), (fst p - 1, snd p), (fst p - 1, snd p + 1),
      (fst p, snd p - 1), (fst p, snd p + 1),
      (fst p + 1, snd p - 1), (fst p + 1, snd p), (fst p + 1, snd p + 1)]"
  by (simp add: neighbours_def)

lemma distinct_neighbours: "distinct (neighbours p)"
  by (simp add: neighbours_eq)

lemma set_neighbours:
  "set (neighbours p) = {q. q \<noteq> p \<and> \<bar>fst q - fst p\<bar> \<le> 1 \<and> \<bar>snd q - snd p\<bar> \<le> 1}"
proof (rule set_eqI)
  fix q :: point
  obtain a b where q: "q = (a, b)" by (cases q)
  obtain x y where p: "p = (x, y)" by (cases p)
  show "q \<in> set (neighbours p) \<longleftrightarrow> q \<in> {q. q \<noteq> p \<and> \<bar>fst q - fst p\<bar> \<le> 1 \<and> \<bar>snd q - snd p\<bar> \<le> 1}"
    unfolding neighbours_eq q p by (simp del: One_nat_def) presburger
qed

lemma proximity_count_length:
  assumes "\<not> is_mine g p"
  shows "proximity_count g p = int (length (filter (\<lambda>q. in_range g q \<and> is_mine g q) (neighbours p)))"
  using assms by (simp add: proximity_count_def upto_three neighbours_eq)

lemma proximity_count_card:
  assumes "\<not> is_mine g p"
  shows "proximity_count g p = int (card {q. q \<noteq> p \<and> \<bar>fst q - fst p\<bar> \<le> 1 \<and> \<bar>snd q - snd p\<bar> \<le> 1 \<and> in_range g q \<and> is_mine g q})"
proof -
  have "{q. q \<noteq> p \<and> \<bar>fst q - fst p\<bar> \<le> 1 \<and> \<bar>snd q - snd p\<bar> \<le> 1 \<and> in_range g q \<and> is_mine g q}
        = set (filter (\<lambda>q. in_range g q \<and> is_mine g q) (neighbours p))"
    by (auto simp: set_neighbours)
  moreover have "distinct (filter (\<lambda>q. in_range g q \<and> is_mine g q) (neighbours p))"
    by (rule distinct_filter) (rule distinct_neighbours)
  ultimately show ?thesis
    using proximity_count_length[OF assms] distinct_card[of "filter (\<lambda>q. in_range g q \<and> is_mine g q) (neighbours p)"]
    by simp
qed

lemma proximity_count_bounds:
  assumes "\<not> is_mine g p"
  shows "0 \<le> proximity_count g p \<and> proximity_count g p \<le> 8"
proof -
  have "length (filter (\<lambda>q. in_range g q \<and> is_mine g q) (neighbours p)) \<le> length (neighbours p)"
    by (rule length_filter_le)
  also have "length (neighbours p) = 8" by (simp add: neighbours_eq)
  finally show ?thesis using proximity_count_length[OF assms] by simp
qed

text \<open>
  C6: \<^verbatim>\<open>proximity_count\<close> returns \<open>-1\<close> exactly on the mines; on any other point it
  returns the number of mines among the in-range points that differ from it by at most
  one in each coordinate, a number between 0 and 8.
\<close>

theorem proximity_count_spec:
  "(proximity_count g p = - 1 \<longleftrightarrow> is_mine g p) \<and>
   (\<not> is_mine g p \<longrightarrow>
      proximity_count g p =
        int (card {q. q \<noteq> p \<and> \<bar>fst q - fst p\<bar> \<le> 1 \<and> \<bar>snd q - snd p\<bar> \<le> 1 \<and> in_range g q \<and> is_mine g q}) \<and>
      0 \<le> proximity_count g p \<and> proximity_count g p \<le> 8)"
proof -
  have "is_mine g p \<Longrightarrow> proximity_count g p = - 1" by (simp add: proximity_count_def)
  moreover have "\<not> is_mine g p \<Longrightarrow> proximity_count g p \<noteq> - 1"
    using proximity_count_bounds[of g p] by simp
  ultimately show ?thesis
    using proximity_count_card[of g p] proximity_count_bounds[of g p] by blast
qed

theorem proximity_count_spec_witness:
  "\<not> is_mine ((init (3, 3) 2)\<lparr>mine_points := [(2, 2), (0, 1)]\<rparr>) (1, 1)
   \<and> proximity_count ((init (3, 3) 2)\<lparr>mine_points := [(2, 2), (0, 1)]\<rparr>) (1, 1) = 2
   \<and> card {q. q \<noteq> (1, 1) \<and> \<bar>fst q - 1\<bar> \<le> 1 \<and> \<bar>snd q - 1\<bar> \<le> 1
              \<and> in_range ((init (3, 3) 2)\<lparr>mine_points := [(2, 2), (0, 1)]\<rparr>) q
              \<and> is_mine ((init (3, 3) 2)\<lparr>mine_points := [(2, 2), (0, 1)]\<rparr>) q} = 2"
proof -
  let ?g = "(init (3, 3) 2)\<lparr>mine_points := [(2, 2), (0, 1)]\<rparr>"
  have m: "\<not> is_mine ?g (1, 1)" by code_simp
  have v: "proximity_count ?g (1, 1) = 2" by code_simp
  from proximity_count_spec[of ?g "(1, 1)"] m
  have "proximity_count ?g (1, 1) =
        int (card {q. q \<noteq> (1, 1) \<and> \<bar>fst q - fst (1 :: int, 1 :: int)\<bar> \<le> 1 \<and> \<bar>snd q - snd (1 :: int, 1 :: int)\<bar> \<le> 1
                     \<and> in_range ?g q \<and> is_mine ?g q})"
    by blast
  with v m show ?thesis by simp
qed

section \<open>Mine placement\<close>

lemma distinct_board_points: "distinct (board_points g)"
  unfolding board_points_def product_concat_map[symmetric]
  by (rule distinct_product) simp_all

lemma set_board_points: "set (board_points g) = {p. in_range g p}"
  by (auto simp: board_points_def in_range_def)

lemma length_board_points:
  "length (board_points g) = nat (fst (size_wh g)) * nat (snd (size_wh g))"
  unfolding board_points_def product_concat_map[symmetric] by simp

lemma distinct_possible_points: "distinct (possible_points g d)"
  by (simp add: possible_points_def distinct_board_points)

lemma set_possible_points:
  "set (possible_points g d) =
     {p. in_range g p \<and> (case d of None \<Rightarrow> True | Some ds \<Rightarrow> p \<notin> set ds)}"
  by (auto simp: possible_points_def set_board_points)

lemma remove_nth_set:
  assumes "distinct xs" "k < length xs"
  shows "set (take k xs @ drop (Suc k) xs) = set xs - {xs ! k}"
    and "distinct (take k xs @ drop (Suc k) xs)"
    and "Suc (length (take k xs @ drop (Suc k) xs)) = length xs"
proof -
  have xs: "xs = take k xs @ xs ! k # drop (Suc k) xs"
    using assms(2) by (rule id_take_nth_drop)
  have d: "distinct (take k xs @ xs ! k # drop (Suc k) xs)"
    using assms(1) xs by simp
  then show "distinct (take k xs @ drop (Suc k) xs)" by simp
  have "set xs = set (take k xs @ xs ! k # drop (Suc k) xs)" using xs by simp
  also have "\<dots> - {xs ! k} = set (take k xs @ drop (Suc k) xs)"
    using d by auto
  finally show "set (take k xs @ drop (Suc k) xs) = set xs - {xs ! k}" by simp
  show "Suc (length (take k xs @ drop (Suc k) xs)) = length xs"
    using assms(2) by simp
qed

lemma place_mines_Suc:
  assumes "possible \<noteq> []"
  shows "place_mines (Suc n) i r possible mines =
         place_mines n (Suc i) r
           (take (r i mod length possible) possible @ drop (Suc (r i mod length possible)) possible)
           (List.insert (possible ! (r i mod length possible)) mines)"
  using assms by (simp add: Let_def)

lemma place_mines_Inr:
  assumes "place_mines n i r possible mines = Inr (possible', mines')"
    and "distinct possible" "distinct mines" "set possible \<inter> set mines = {}"
  shows "distinct mines' \<and> distinct possible' \<and> set possible' \<inter> set mines' = {}
         \<and> set possible' \<union> set mines' = set possible \<union> set mines
         \<and> length mines' = length mines + n \<and> length possible' + n = length possible"
  using assms
proof (induction n arbitrary: i possible mines)
  case 0
  then show ?case by simp
next
  case (Suc n)
  have ne: "possible \<noteq> []"
  proof
    assume "possible = []"
    with Suc.prems(1) show False by simp
  qed
  define k where "k = r i mod length possible"
  have k: "k < length possible" using ne by (simp add: k_def)
  define pool where "pool = take k possible @ drop (Suc k) possible"
  define pt where "pt = possible ! k"
  have pt: "pt \<in> set possible" using k by (simp add: pt_def)
  then have fresh: "pt \<notin> set mines" using Suc.prems(4) by auto
  have ins: "List.insert pt mines = pt # mines" using fresh by (simp add: List.insert_def)
  have rec: "place_mines n (Suc i) r pool (pt # mines) = Inr (possible', mines')"
    using Suc.prems(1) unfolding place_mines_Suc[OF ne] k_def[symmetric] pool_def[symmetric] pt_def[symmetric] ins .
  have rm: "set pool = set possible - {pt}" "distinct pool" "Suc (length pool) = length possible"
    unfolding pool_def pt_def by (rule remove_nth_set[OF Suc.prems(2) k])+
  have "distinct (pt # mines)" using fresh Suc.prems(3) by simp
  moreover have "set pool \<inter> set (pt # mines) = {}"
    using rm(1) Suc.prems(4) by auto
  ultimately have IH: "distinct mines' \<and> distinct possible' \<and> set possible' \<inter> set mines' = {}
         \<and> set possible' \<union> set mines' = set pool \<union> set (pt # mines)
         \<and> length mines' = length (pt # mines) + n \<and> length possible' + n = length pool"
    using Suc.IH[OF rec rm(2)] by blast
  have "set pool \<union> set (pt # mines) = set possible \<union> set mines"
    using rm(1) pt by auto
  then show ?case using IH rm(3) by simp
qed

lemma place_mines_ValueError:
  "place_mines n i r possible mines = Inl ValueError \<longleftrightarrow> length possible < n"
proof (induction n arbitrary: i possible mines)
  case 0
  then show ?case by simp
next
  case (Suc n)
  show ?case
  proof (cases "possible = []")
    case True
    then show ?thesis by simp
  next
    case False
    define k where "k = r i mod length possible"
    have k: "k < length possible" using False by (simp add: k_def)
    define pool where "pool = take k possible @ drop (Suc k) possible"
    have "Suc (length pool) = length possible"
      using k by (simp add: pool_def)
    then have "length pool < n \<longleftrightarrow> length possible < Suc n"
      by linarith
    then show ?thesis
      unfolding place_mines_Suc[OF False] k_def[symmetric] pool_def[symmetric]
      using Suc.IH[of "Suc i" pool] by simp
  qed
qed

lemma generate_board_cases:
  assumes "generate_board g d r = Inr g'"
  obtains possible mines where
    "place_mines (nat (mine_count g)) 0 r (possible_points g d) [] = Inr (possible, mines)"
    "g' = g\<lparr>mine_points := mines, state := playing, last_click := None\<rparr>"
  using assms by (auto simp: generate_board_def split: sum.splits if_splits)

text \<open>
  C4: when \<^verbatim>\<open>generate_board\<close> returns on a board whose mine count is not negative, the
  mines are pairwise distinct, there are exactly \<^verbatim>\<open>mine_count\<close> of them, each is in
  range, and none is a disallowed point.
\<close>

theorem generate_board_mines:
  assumes "generate_board g d r = Inr g'" and "0 \<le> mine_count g"
  shows "distinct (mine_points g') \<and> int (card (set (mine_points g'))) = mine_count g
         \<and> (\<forall>m \<in> set (mine_points g'). in_range g' m \<and> (\<forall>ds. d = Some ds \<longrightarrow> m \<notin> set ds))"
proof -
  from assms(1) obtain possible mines where
    pm: "place_mines (nat (mine_count g)) 0 r (possible_points g d) [] = Inr (possible, mines)"
    and g': "g' = g\<lparr>mine_points := mines, state := playing, last_click := None\<rparr>"
    by (rule generate_board_cases)
  have spec: "distinct mines \<and> distinct possible \<and> set possible \<inter> set mines = {}
         \<and> set possible \<union> set mines = set (possible_points g d) \<union> set []
         \<and> length mines = length ([]::point list) + nat (mine_count g)
         \<and> length possible + nat (mine_count g) = length (possible_points g d)"
    by (rule place_mines_Inr[OF pm distinct_possible_points]) simp_all
  then have sub: "set mines \<subseteq> set (possible_points g d)" by auto
  have "card (set mines) = length mines" using spec by (simp add: distinct_card)
  then have "int (card (set mines)) = mine_count g" using spec assms(2) by simp
  moreover have "\<forall>m \<in> set mines. in_range g m \<and> (\<forall>ds. d = Some ds \<longrightarrow> m \<notin> set ds)"
    using sub by (auto simp: set_possible_points)
  ultimately show ?thesis using spec by (simp add: g' in_range_def)
qed

theorem generate_board_mines_witness:
  "\<exists>g'. generate_board (init (3, 3) 2) (Some [(1, 1)]) (\<lambda>i. [4, 4] ! i) = Inr g'
        \<and> 0 \<le> mine_count (init (3, 3) 2)
        \<and> mine_points g' = [(2, 0), (1, 2)]
        \<and> int (card (set (mine_points g'))) = 2"
proof -
  let ?g = "init (3, 3) 2"
  let ?g' = "?g\<lparr>mine_points := [(2, 0), (1, 2)], state := playing, last_click := None\<rparr>"
  have run: "generate_board ?g (Some [(1, 1)]) (\<lambda>i. [4, 4] ! i) = Inr ?g'" by code_simp
  have mc: "0 \<le> mine_count ?g" by (simp add: init_def)
  from generate_board_mines[OF run mc] have "int (card (set (mine_points ?g'))) = mine_count ?g"
    by blast
  then have "int (card (set (mine_points ?g'))) = 2" by (simp add: init_def)
  with run mc show ?thesis by (intro exI[of _ ?g']) simp
qed

lemma generate_board_ValueError:
  "generate_board g d r = Inl ValueError \<longleftrightarrow> int (length (possible_points g d)) < mine_count g"
proof -
  have "generate_board g d r = Inl ValueError \<longleftrightarrow>
        place_mines (nat (mine_count g)) 0 r (possible_points g d) [] = Inl ValueError"
    by (auto simp: generate_board_def split: sum.splits)
  also have "\<dots> \<longleftrightarrow> length (possible_points g d) < nat (mine_count g)"
    by (rule place_mines_ValueError)
  also have "\<dots> \<longleftrightarrow> int (length (possible_points g d)) < mine_count g"
    by linarith
  finally show ?thesis .
qed

lemma length_possible_points_le:
  "length (possible_points g d) \<le> nat (fst (size_wh g)) * nat (snd (size_wh g))"
  unfolding possible_points_def length_board_points[symmetric] by (rule length_filter_le)

lemma place_mines_lengths:
  assumes "place_mines n i r possible mines = Inr (possible', mines')"
    and "distinct possible" "distinct mines" "set possible \<inter> set mines = {}"
  shows "length possible' + length mines' = length possible + length mines"
  using place_mines_Inr[OF assms] by simp

lemma place_mines_error: "place_mines n i r possible mines = Inl e \<Longrightarrow> e = ValueError"
proof (induction n arbitrary: i possible mines)
  case 0
  then show ?case by simp
next
  case (Suc n)
  show ?case
  proof (cases "possible = []")
    case True
    with Suc.prems show ?thesis by simp
  next
    case False
    from Suc.prems show ?thesis
      unfolding place_mines_Suc[OF False] by (rule Suc.IH)
  qed
qed

lemma generate_board_Inr_iff:
  "(\<exists>g'. generate_board g d r = Inr g') \<longleftrightarrow>
     mine_count g \<le> int (length (possible_points g d)) \<and>
     int (length (possible_points g d)) =
       fst (size_wh g) * snd (size_wh g) - (case d of None \<Rightarrow> 0 | Some ds \<Rightarrow> int (length ds))"
proof (cases "place_mines (nat (mine_count g)) 0 r (possible_points g d) []")
  case (Inl e)
  then have "e = ValueError" by (rule place_mines_error)
  with Inl have "length (possible_points g d) < nat (mine_count g)"
    using place_mines_ValueError[of "nat (mine_count g)" 0 r "possible_points g d" "[]"] by simp
  then have "int (length (possible_points g d)) < mine_count g" by linarith
  moreover have "generate_board g d r = Inl e" using Inl by (simp add: generate_board_def)
  ultimately show ?thesis by auto
next
  case (Inr res)
  obtain possible mines where res: "res = (possible, mines)" by (cases res)
  have "length possible + length mines = length (possible_points g d) + length ([]::point list)"
    by (rule place_mines_lengths[OF Inr[unfolded res] distinct_possible_points]) simp_all
  then have len: "int (length possible) + int (length mines) = int (length (possible_points g d))"
    by simp
  have "\<not> length (possible_points g d) < nat (mine_count g)"
    using place_mines_ValueError[of "nat (mine_count g)" 0 r "possible_points g d" "[]"] Inr by simp
  then have "mine_count g \<le> int (length (possible_points g d))" by linarith
  then show ?thesis using Inr res len by (auto simp: generate_board_def)
qed

lemma possible_points_all:
  assumes "d = None \<or> d = Some []"
  shows "possible_points g d = board_points g"
  using assms by (auto simp: possible_points_def)

text \<open>
  C9, as the code has it: \<^verbatim>\<open>generate_board\<close> raises \<^verbatim>\<open>ValueError\<close> exactly when the mine
  count exceeds the number of in-range points that are not disallowed. On a board whose
  mine count is at least width times height it therefore fails, by that error or by its
  closing assertion, in every case but one: when the mine count equals width times
  height and the list of disallowed points is empty or absent, the generation completes
  and every cell becomes a mine.
\<close>

theorem generate_fails_beyond_pool:
  "(generate_board g d r = Inl ValueError \<longleftrightarrow> int (length (possible_points g d)) < mine_count g)
   \<and> (0 \<le> fst (size_wh g) \<and> 0 \<le> snd (size_wh g)
        \<and> fst (size_wh g) * snd (size_wh g) \<le> mine_count g \<longrightarrow>
       ((\<exists>g'. generate_board g d r = Inr g') \<longleftrightarrow>
          mine_count g = fst (size_wh g) * snd (size_wh g) \<and> (d = None \<or> d = Some [])))"
proof (intro conjI impI)
  show "generate_board g d r = Inl ValueError \<longleftrightarrow> int (length (possible_points g d)) < mine_count g"
    by (rule generate_board_ValueError)
next
  assume a: "0 \<le> fst (size_wh g) \<and> 0 \<le> snd (size_wh g)
        \<and> fst (size_wh g) * snd (size_wh g) \<le> mine_count g"
  let ?cells = "fst (size_wh g) * snd (size_wh g)"
  have cells: "int (length (board_points g)) = ?cells"
    using a by (simp add: length_board_points)
  have le: "int (length (possible_points g d)) \<le> ?cells"
    using length_possible_points_le[of g d] a
    by (metis cells length_board_points of_nat_le_iff)
  show "(\<exists>g'. generate_board g d r = Inr g') \<longleftrightarrow>
          mine_count g = ?cells \<and> (d = None \<or> d = Some [])"
  proof
    assume "\<exists>g'. generate_board g d r = Inr g'"
    then have m: "mine_count g \<le> int (length (possible_points g d))"
      and e: "int (length (possible_points g d)) =
                ?cells - (case d of None \<Rightarrow> 0 | Some ds \<Rightarrow> int (length ds))"
      unfolding generate_board_Inr_iff by simp_all
    from m le a have "int (length (possible_points g d)) = ?cells" "mine_count g = ?cells"
      by linarith+
    with e show "mine_count g = ?cells \<and> (d = None \<or> d = Some [])"
      by (cases d) simp_all
  next
    assume b: "mine_count g = ?cells \<and> (d = None \<or> d = Some [])"
    then have "possible_points g d = board_points g" by (intro possible_points_all) simp
    with b cells show "\<exists>g'. generate_board g d r = Inr g'"
      unfolding generate_board_Inr_iff by auto
  qed
qed

theorem generate_fails_beyond_pool_witness:
  "generate_board (init (2, 2) 5) (Some []) (\<lambda>_. 0) = Inl ValueError
   \<and> (\<nexists>g'. generate_board (init (2, 2) 4) (Some [(0, 0)]) (\<lambda>_. 0) = Inr g')
   \<and> (\<exists>g'. generate_board (init (2, 2) 4) (Some []) (\<lambda>_. 0) = Inr g')"
proof -
  have a: "0 \<le> fst (size_wh (init (2, 2) 4)) \<and> 0 \<le> snd (size_wh (init (2, 2) 4))
           \<and> fst (size_wh (init (2, 2) 4)) * snd (size_wh (init (2, 2) 4)) \<le> mine_count (init (2, 2) 4)"
    by (simp add: init_def)
  have m: "mine_count (init (2, 2) 4) = fst (size_wh (init (2, 2) 4)) * snd (size_wh (init (2, 2) 4))"
    by (simp add: init_def)
  have l: "int (length (possible_points (init (2, 2) 5) (Some []))) < mine_count (init (2, 2) 5)"
    by code_simp
  from generate_fails_beyond_pool[of "init (2, 2) 5" "Some []" "\<lambda>_. 0"] l
  have "generate_board (init (2, 2) 5) (Some []) (\<lambda>_. 0) = Inl ValueError" by blast
  moreover from generate_fails_beyond_pool[of "init (2, 2) 4" "Some [(0, 0)]" "\<lambda>_. 0"] a
  have "\<nexists>g'. generate_board (init (2, 2) 4) (Some [(0, 0)]) (\<lambda>_. 0) = Inr g'" by simp
  moreover from generate_fails_beyond_pool[of "init (2, 2) 4" "Some []" "\<lambda>_. 0"] a m
  have "\<exists>g'. generate_board (init (2, 2) 4) (Some []) (\<lambda>_. 0) = Inr g'" by simp
  ultimately show ?thesis by blast
qed

theorem generate_full_board_counterexample:
  "fst (size_wh (init (1, 1) 1)) * snd (size_wh (init (1, 1) 1)) \<le> mine_count (init (1, 1) 1)
   \<and> generate_board (init (1, 1) 1) (Some []) (\<lambda>_. 0)
       = Inr ((init (1, 1) 1)\<lparr>mine_points := [(0, 0)], state := playing\<rparr>)"
  by code_simp

section \<open>Generating twice, and the terminal states\<close>

text \<open>
  C8, as the code has it: \<^verbatim>\<open>generate_board\<close> does not read the state, so what it returns
  on a board is what it returns on that board in any other state; a second generation
  places the mines anew. The error on a started game is raised by the caller
  \<^verbatim>\<open>start_game\<close>, which refuses every board that is not idle.
\<close>

theorem start_game_guard:
  "(state g \<noteq> idle \<longrightarrow> start_game g p r = Inl ValueError)
   \<and> (generate_board g d r = Inr g' \<longrightarrow> generate_board (g\<lparr>state := s\<rparr>) d r = Inr g')"
proof -
  have pp: "possible_points (g\<lparr>state := s\<rparr>) d = possible_points g d"
    by (simp add: possible_points_def board_points_def)
  have "generate_board g d r = Inr g' \<Longrightarrow> generate_board (g\<lparr>state := s\<rparr>) d r = Inr g'"
    by (auto simp: generate_board_def pp split: sum.splits if_splits)
  then show ?thesis by (simp add: start_game_def)
qed

theorem start_game_guard_witness:
  "start_game ((init (2, 2) 1)\<lparr>state := playing\<rparr>) (0, 0) (\<lambda>_. 0) = Inl ValueError
   \<and> generate_board ((init (2, 2) 1)\<lparr>state := lost\<rparr>) None (\<lambda>_. 0)
       = Inr ((init (2, 2) 1)\<lparr>mine_points := [(0, 0)], state := playing\<rparr>)"
proof -
  have a: "state ((init (2, 2) 1)\<lparr>state := playing\<rparr>) \<noteq> idle" by simp
  have b: "generate_board (init (2, 2) 1) None (\<lambda>_. 0)
           = Inr ((init (2, 2) 1)\<lparr>mine_points := [(0, 0)], state := playing\<rparr>)"
    by code_simp
  from start_game_guard[of "(init (2, 2) 1)\<lparr>state := playing\<rparr>" "(0, 0)" "\<lambda>_. 0"] a
  have "start_game ((init (2, 2) 1)\<lparr>state := playing\<rparr>) (0, 0) (\<lambda>_. 0) = Inl ValueError"
    by blast
  moreover from start_game_guard[where g = "init (2, 2) 1" and d = None and r = "\<lambda>_. 0" and s = lost] b
  have "generate_board ((init (2, 2) 1)\<lparr>state := lost\<rparr>) None (\<lambda>_. 0)
       = Inr ((init (2, 2) 1)\<lparr>mine_points := [(0, 0)], state := playing\<rparr>)"
    by blast
  ultimately show ?thesis by simp
qed

theorem generate_again_counterexample:
  "generate_board (init (2, 2) 1) None (\<lambda>_. 0)
     = Inr ((init (2, 2) 1)\<lparr>mine_points := [(0, 0)], state := playing\<rparr>)
   \<and> generate_board ((init (2, 2) 1)\<lparr>mine_points := [(0, 0)], state := playing\<rparr>) None (\<lambda>_. 3)
     = Inr ((init (2, 2) 1)\<lparr>mine_points := [(1, 1)], state := playing\<rparr>)"
  by code_simp

text \<open>
  C3, as the code has it: on a board that is won or lost, \<^verbatim>\<open>open\<close> raises
  \<^verbatim>\<open>ValueError\<close>, and \<^verbatim>\<open>flag\<close>, \<^verbatim>\<open>unflag\<close>, \<^verbatim>\<open>question\<close> and \<^verbatim>\<open>unquestion\<close> leave the
  grid of opened cells, the mines and the state as they are. The engine refuses neither
  a generation nor a flag on such a board.
\<close>

theorem terminal_state_frozen:
  assumes "state g = won \<or> state g = lost"
  shows "open k g p = Inl ValueError
    \<and> (\<forall>g'. flag g p = Inr g' \<longrightarrow>
          cell_opened_grid g' = cell_opened_grid g \<and> mine_points g' = mine_points g \<and> state g' = state g)
    \<and> cell_opened_grid (unflag g p) = cell_opened_grid g \<and> mine_points (unflag g p) = mine_points g
    \<and> state (unflag g p) = state g
    \<and> cell_opened_grid (question g p) = cell_opened_grid g \<and> mine_points (question g p) = mine_points g
    \<and> state (question g p) = state g
    \<and> cell_opened_grid (unquestion g p) = cell_opened_grid g \<and> mine_points (unquestion g p) = mine_points g
    \<and> state (unquestion g p) = state g"
proof -
  have "open k g p = Inl ValueError" using assms by (auto simp: open_def)
  moreover have "\<forall>g'. flag g p = Inr g' \<longrightarrow>
          cell_opened_grid g' = cell_opened_grid g \<and> mine_points g' = mine_points g \<and> state g' = state g"
    by (auto simp: flag_def split: sum.splits if_splits)
  ultimately show ?thesis by (simp add: unflag_def question_def unquestion_def)
qed

theorem terminal_state_frozen_witness:
  "open (\<lambda>_. 0) ((init (2, 2) 1)\<lparr>mine_points := [(0, 0)], state := lost\<rparr>) (1, 1) = Inl ValueError
   \<and> mine_points (question ((init (2, 2) 1)\<lparr>mine_points := [(0, 0)], state := lost\<rparr>) (1, 1)) = [(0, 0)]"
proof -
  let ?g = "(init (2, 2) 1)\<lparr>mine_points := [(0, 0)], state := lost\<rparr>"
  have "state ?g = won \<or> state ?g = lost" by simp
  from terminal_state_frozen[OF this, where p = "(1, 1)" and k = "\<lambda>_. 0"] show ?thesis by simp
qed

theorem terminal_state_counterexample:
  "generate_board (init (2, 2) 1) None (\<lambda>_. 0)
     = Inr ((init (2, 2) 1)\<lparr>mine_points := [(0, 0)], state := playing\<rparr>)
   \<and> open (\<lambda>_. 0) ((init (2, 2) 1)\<lparr>mine_points := [(0, 0)], state := playing\<rparr>) (0, 0)
     = Inr ((init (2, 2) 1)\<lparr>mine_points := [(0, 0)], state := lost, last_click := Some (0, 0)\<rparr>)
   \<and> generate_board
         ((init (2, 2) 1)\<lparr>mine_points := [(0, 0)], state := lost, last_click := Some (0, 0)\<rparr>)
         None (\<lambda>_. 3)
     = Inr ((init (2, 2) 1)\<lparr>mine_points := [(1, 1)], state := playing\<rparr>)
   \<and> flag ((init (2, 2) 1)\<lparr>mine_points := [(0, 0)], state := lost, last_click := Some (0, 0)\<rparr>)
         (1, 1)
     = Inr ((init (2, 2) 1)\<lparr>mine_points := [(0, 0)], state := lost, last_click := Some (0, 0),
                              flagged_points := [(1, 1)]\<rparr>)"
  by code_simp

section \<open>Opening an opened cell\<close>

text \<open>
  C10: on a board in the playing state, \<^verbatim>\<open>open\<close> on a point that is already opened
  returns the board with \<^verbatim>\<open>last_click\<close> set to the point, and a second call on that
  board returns the very same board: no field changes.
\<close>

theorem open_opened_twice:
  assumes "state g = playing" and "opened g p"
  shows "\<exists>g1. open k g p = Inr g1 \<and> g1 = g\<lparr>last_click := Some p\<rparr> \<and> open k g1 p = Inr g1"
proof -
  have "is_opened (g\<lparr>last_click := Some p\<rparr>) p = is_opened g p"
    by (rule is_opened_grid_only) simp
  then have "is_opened (g\<lparr>last_click := Some p\<rparr>) p = Inr True"
    using assms(2) by (simp add: opened_def)
  then show ?thesis using assms(1) by (simp add: open_def)
qed

theorem open_opened_twice_witness:
  "state \<lparr>size_wh = (2, 2), mine_count = 1, state = playing, mine_points = [(1, 1)],
      questioned_points = [], flagged_points = [], last_click = Some (0, 1),
      cell_opened_grid = [[True, True], [False, False]]\<rparr> = playing
   \<and> opened \<lparr>size_wh = (2, 2), mine_count = 1, state = playing, mine_points = [(1, 1)],
      questioned_points = [], flagged_points = [], last_click = Some (0, 1),
      cell_opened_grid = [[True, True], [False, False]]\<rparr> (0, 0)
   \<and> (\<exists>g1. open (\<lambda>_. 0) \<lparr>size_wh = (2, 2), mine_count = 1, state = playing, mine_points = [(1, 1)],
      questioned_points = [], flagged_points = [], last_click = Some (0, 1),
      cell_opened_grid = [[True, True], [False, False]]\<rparr> (0, 0) = Inr g1
          \<and> last_click g1 = Some (0, 0) \<and> open (\<lambda>_. 0) g1 (0, 0) = Inr g1)"
proof -
  let ?g = "\<lparr>size_wh = (2, 2), mine_count = 1, state = playing, mine_points = [(1, 1)],
      questioned_points = [], flagged_points = [], last_click = Some (0, 1),
      cell_opened_grid = [[True, True], [False, False]]\<rparr>"
  have s: "state ?g = playing" by simp
  have o: "opened ?g (0, 0)" by code_simp
  from open_opened_twice[OF s o, where k = "\<lambda>_. 0"] s o show ?thesis by auto
qed

section \<open>Orders of iteration\<close>

text \<open>
  Whatever the orders in which the points that are not mines and the mines are iterated,
  one key gives both: the model with all keys covers every order Python can choose.
\<close>

lemma order_key_nth:
  "distinct ys \<Longrightarrow> i < length ys \<Longrightarrow> order_key ys (ys ! i) = i"
  unfolding order_key_def
proof (induction ys arbitrary: i)
  case Nil
  then show ?case by simp
next
  case (Cons y ys)
  then show ?case by (cases i) auto
qed

lemma order_key_map:
  assumes "distinct ys"
  shows "map (order_key ys) ys = [0 ..< length ys]"
  using assms by (intro nth_equalityI) (simp_all add: order_key_nth)

lemma order_key_inj:
  assumes "distinct ys"
  shows "inj_on (order_key ys) (set ys)"
proof -
  have "distinct (map (order_key ys) ys)" by (simp add: order_key_map[OF assms])
  then show ?thesis by (simp add: distinct_map)
qed

lemma sort_order_key:
  assumes "distinct xs" "distinct ys" "set xs \<subseteq> set ys"
  shows "sort_key (order_key ys) xs = filter (\<lambda>p. p \<in> set xs) ys"
proof (rule map_sorted_distinct_set_unique[where f = "order_key ys"])
  have s: "set (sort_key (order_key ys) xs) = set xs" by simp
  have i: "inj_on (order_key ys) (set xs)"
    using order_key_inj[OF assms(2)] assms(3) by (rule inj_on_subset)
  show "inj_on (order_key ys) (set (sort_key (order_key ys) xs) \<union> set (filter (\<lambda>p. p \<in> set xs) ys))"
    unfolding s using order_key_inj[OF assms(2)] assms(3) by (auto intro: inj_on_subset)
  show "sorted (map (order_key ys) (filter (\<lambda>p. p \<in> set xs) ys))"
    by (rule sorted_filter) (simp add: order_key_map[OF assms(2)])
  show "distinct (map (order_key ys) (filter (\<lambda>p. p \<in> set xs) ys))"
    by (rule distinct_map_filter) (simp add: order_key_map[OF assms(2)])
  show "sorted (map (order_key ys) (sort_key (order_key ys) xs))" by simp
  show "distinct (map (order_key ys) (sort_key (order_key ys) xs))"
    using assms(1) i by (simp add: distinct_map)
  show "set (sort_key (order_key ys) xs) = set (filter (\<lambda>p. p \<in> set xs) ys)"
    using assms(3) by auto
qed

lemma filter_append_disjoint:
  assumes "set ys \<inter> set zs = {}"
  shows "filter (\<lambda>p. p \<in> set ys) (ys @ zs) = ys" "filter (\<lambda>p. p \<in> set zs) (ys @ zs) = zs"
proof -
  have "filter (\<lambda>p. p \<in> set ys) zs = []" "filter (\<lambda>p. p \<in> set zs) ys = []"
    using assms by (auto simp: filter_empty_conv)
  then show "filter (\<lambda>p. p \<in> set ys) (ys @ zs) = ys" "filter (\<lambda>p. p \<in> set zs) (ys @ zs) = zs"
    by simp_all
qed

lemma iteration_orders_have_key:
  assumes "distinct (mine_points g)"
    and "distinct ys" "set ys = set (non_mine_points g)"
    and "distinct zs" "set zs = set (mine_points g)"
  shows "\<exists>k :: point \<Rightarrow> nat. sort_key k (non_mine_points g) = ys \<and> sort_key k (mine_points g) = zs"
proof -
  have d: "set ys \<inter> set zs = {}" using assms(3,5) by (auto simp: non_mine_points_def)
  have dn: "distinct (non_mine_points g)"
    by (simp add: non_mine_points_def distinct_board_points)
  have dyz: "distinct (ys @ zs)" using assms(2,4) d by simp
  have "sort_key (order_key (ys @ zs)) (non_mine_points g)
          = filter (\<lambda>p. p \<in> set (non_mine_points g)) (ys @ zs)"
    using dn dyz by (rule sort_order_key) (simp add: assms(3))
  also have "\<dots> = ys" unfolding assms(3)[symmetric] by (rule filter_append_disjoint[OF d])
  finally have 1: "sort_key (order_key (ys @ zs)) (non_mine_points g) = ys" .
  have "sort_key (order_key (ys @ zs)) (mine_points g)
          = filter (\<lambda>p. p \<in> set (mine_points g)) (ys @ zs)"
    using assms(1) dyz by (rule sort_order_key) (simp add: assms(5))
  also have "\<dots> = zs" unfolding assms(5)[symmetric] by (rule filter_append_disjoint[OF d])
  finally have 2: "sort_key (order_key (ys @ zs)) (mine_points g) = zs" .
  from 1 2 show ?thesis by blast
qed

section \<open>Reading and writing the grid\<close>

lemma py_index_nonneg:
  "0 \<le> i \<Longrightarrow> py_index xs i = (if i < int (length xs) then Inr (nat i) else Inl IndexError)"
  by (simp add: py_index_def Let_def)

lemma is_opened_nonneg:
  assumes "0 \<le> fst p" "0 \<le> snd p"
  shows "is_opened g p =
     (if nat (fst p) < length (cell_opened_grid g) \<and>
         nat (snd p) < length (cell_opened_grid g ! nat (fst p))
      then Inr (cell_opened_grid g ! nat (fst p) ! nat (snd p)) else Inl IndexError)"
  using assms by (auto simp: is_opened_def py_index_nonneg)

lemma set_opened_nonneg:
  assumes "0 \<le> fst p" "0 \<le> snd p"
  shows "set_opened g p =
     (if nat (fst p) < length (cell_opened_grid g) \<and>
         nat (snd p) < length (cell_opened_grid g ! nat (fst p))
      then Inr (g\<lparr>cell_opened_grid :=
                    (cell_opened_grid g)[nat (fst p) := (cell_opened_grid g ! nat (fst p))[nat (snd p) := True]]\<rparr>)
      else Inl IndexError)"
  using assms by (auto simp: set_opened_def py_index_nonneg)

lemma set_opened_fields:
  assumes "set_opened g p = Inr g'"
  shows "size_wh g' = size_wh g" "mine_count g' = mine_count g" "state g' = state g"
    "mine_points g' = mine_points g" "questioned_points g' = questioned_points g"
    "flagged_points g' = flagged_points g" "last_click g' = last_click g"
  using assms by (auto simp: set_opened_def split: sum.splits)

lemma set_opened_total:
  assumes "is_opened g p = Inr b"
  shows "\<exists>g'. set_opened g p = Inr g'"
  using assms by (auto simp: is_opened_def set_opened_def split: sum.splits)

text \<open>Reading the grid after a cell has been set, at points with natural coordinates.\<close>

lemma is_opened_set_opened:
  assumes "set_opened g p = Inr g'" "0 \<le> fst p" "0 \<le> snd p" "0 \<le> fst q" "0 \<le> snd q"
  shows "is_opened g' q = (if q = p then Inr True else is_opened g q)"
proof -
  let ?G = "cell_opened_grid g"
  let ?i = "nat (fst p)" and ?j = "nat (snd p)"
  from assms(1-3) have i: "?i < length ?G" and j: "?j < length (?G ! ?i)"
    and g': "cell_opened_grid g' = ?G[?i := (?G ! ?i)[?j := True]]"
    by (auto simp: set_opened_nonneg split: if_splits)
  show ?thesis
  proof (cases "q = p")
    case True
    then show ?thesis using i j g' assms(2,3) by (simp add: is_opened_nonneg)
  next
    case False
    then have ne: "nat (fst q) \<noteq> ?i \<or> nat (snd q) \<noteq> ?j"
      using assms(2-5) by (metis int_nat_eq prod.expand)
    show ?thesis
    proof (cases "nat (fst q) = ?i")
      case True
      with ne have "nat (snd q) \<noteq> ?j" by simp
      with True i j g' False show ?thesis
        by (simp add: is_opened_nonneg[OF assms(4,5)])
    next
      case False
      with i j g' \<open>q \<noteq> p\<close> show ?thesis
        by (simp add: is_opened_nonneg[OF assms(4,5)])
    qed
  qed
qed

lemma in_range_size: "size_wh g' = size_wh g \<Longrightarrow> in_range g' p = in_range g p"
  by (simp add: in_range_def)

lemma is_mine_mines: "mine_points g' = mine_points g \<Longrightarrow> is_mine g' p = is_mine g p"
  by (simp add: is_mine_def)

lemma proximity_count_same:
  "size_wh g' = size_wh g \<Longrightarrow> mine_points g' = mine_points g \<Longrightarrow>
   proximity_count g' p = proximity_count g p"
proof -
  assume a: "size_wh g' = size_wh g" "mine_points g' = mine_points g"
  have h: "is_mine g' = is_mine g" "in_range g' = in_range g"
    using a by (auto simp: is_mine_def in_range_def fun_eq_iff)
  show ?thesis unfolding proximity_count_def h by (rule refl)
qed

section \<open>Flags and the winning check\<close>

lemma flag_cases:
  assumes "flag g p = Inr g'"
  obtains (opened) "is_opened g p = Inr True" "g' = g"
  | (closed) "is_opened g p = Inr False"
      "g' = g\<lparr>flagged_points := List.insert p (flagged_points g),
              questioned_points := removeAll p (questioned_points g)\<rparr>"
  using assms by (auto simp: flag_def split: sum.splits if_splits)

lemma flag_fields:
  assumes "flag g p = Inr g'"
  shows "size_wh g' = size_wh g" "mine_count g' = mine_count g" "state g' = state g"
    "mine_points g' = mine_points g" "last_click g' = last_click g"
    "cell_opened_grid g' = cell_opened_grid g"
  using assms by (auto elim!: flag_cases)

lemma flag_marks:
  assumes "flag g p = Inr g'"
  shows "set (flagged_points g') = set (flagged_points g) \<union> {m. m = p \<and> is_opened g m = Inr False}"
    and "set (questioned_points g') = set (questioned_points g) - {m. m = p \<and> is_opened g m = Inr False}"
  using assms by (auto elim!: flag_cases)

lemma flag_each_fields:
  assumes "flag_each ps g = Inr g'"
  shows "size_wh g' = size_wh g \<and> mine_count g' = mine_count g \<and> state g' = state g
    \<and> mine_points g' = mine_points g \<and> last_click g' = last_click g
    \<and> cell_opened_grid g' = cell_opened_grid g"
  using assms
proof (induction ps arbitrary: g)
  case Nil
  then show ?case by simp
next
  case (Cons p ps)
  from Cons.prems obtain g1 where f: "flag g p = Inr g1" and r: "flag_each ps g1 = Inr g'"
    by (auto split: sum.splits)
  from Cons.IH[OF r] flag_fields[OF f] show ?case by simp
qed

lemma flag_each_marks:
  assumes "flag_each ps g = Inr g'"
  shows "set (flagged_points g') = set (flagged_points g) \<union> {m \<in> set ps. is_opened g m = Inr False}
       \<and> set (questioned_points g') = set (questioned_points g) - {m \<in> set ps. is_opened g m = Inr False}"
  using assms
proof (induction ps arbitrary: g)
  case Nil
  then show ?case by simp
next
  case (Cons p ps)
  from Cons.prems obtain g1 where f: "flag g p = Inr g1" and r: "flag_each ps g1 = Inr g'"
    by (auto split: sum.splits)
  have same: "\<And>m. is_opened g1 m = is_opened g m"
    by (rule is_opened_grid_only) (rule flag_fields(6)[OF f])
  from Cons.IH[OF r] have
    "set (flagged_points g') = set (flagged_points g1) \<union> {m \<in> set ps. is_opened g m = Inr False}"
    "set (questioned_points g') = set (questioned_points g1) - {m \<in> set ps. is_opened g m = Inr False}"
    by (simp_all add: same)
  with flag_marks[OF f] show ?case by auto
qed

lemma flag_each_total:
  assumes "\<forall>m \<in> set ps. \<exists>b. is_opened g m = Inr b"
  shows "\<exists>g'. flag_each ps g = Inr g'"
  using assms
proof (induction ps arbitrary: g)
  case Nil
  then show ?case by simp
next
  case (Cons p ps)
  from Cons.prems obtain b where b: "is_opened g p = Inr b" by auto
  then have "\<exists>g1. flag g p = Inr g1" by (cases b) (simp_all add: flag_def)
  then obtain g1 where f: "flag g p = Inr g1" ..
  have same: "\<And>m. is_opened g1 m = is_opened g m"
    by (rule is_opened_grid_only) (rule flag_fields(6)[OF f])
  have "\<exists>g'. flag_each ps g1 = Inr g'"
    by (rule Cons.IH) (use Cons.prems in \<open>simp add: same\<close>)
  with f show ?case by simp
qed

lemma every_opened_True:
  "every_opened g ps = Inr True \<longleftrightarrow> (\<forall>q \<in> set ps. is_opened g q = Inr True)"
  by (induction ps) (auto split: sum.splits)

lemma every_opened_total:
  "\<forall>q \<in> set ps. \<exists>b. is_opened g q = Inr b \<Longrightarrow> \<exists>b. every_opened g ps = Inr b"
  by (induction ps) (auto split: sum.splits)

lemma set_non_mine_points: "set (non_mine_points g) = {q. in_range g q \<and> \<not> is_mine g q}"
  by (auto simp: non_mine_points_def set_board_points is_mine_def)

lemma every_opened_all_opened:
  "every_opened g (sort_key k (non_mine_points g)) = Inr True \<longleftrightarrow> all_opened g"
  by (simp add: every_opened_True set_non_mine_points all_opened_def opened_def)

lemma is_won_True:
  "is_won k g = Inr (True, g') \<longleftrightarrow>
     (state g = won \<and> g' = g) \<or>
     (state g \<noteq> won \<and> state g \<noteq> lost \<and> all_opened g \<and> g' = g\<lparr>state := won\<rparr>)"
proof (cases "every_opened g (sort_key k (non_mine_points g))")
  case (Inl e)
  then have "\<not> all_opened g" using every_opened_all_opened[of g k] by simp
  with Inl show ?thesis by (auto simp: is_won_def)
next
  case (Inr b)
  then have "b \<longleftrightarrow> all_opened g" using every_opened_all_opened[of g k] by simp
  with Inr show ?thesis by (auto simp: is_won_def)
qed

lemma is_won_False:
  assumes "is_won k g = Inr (False, g')"
  shows "g' = g" "state g \<noteq> won" "state g = lost \<or> \<not> all_opened g"
proof -
  show "g' = g" using assms by (auto simp: is_won_def split: if_splits sum.splits)
  show "state g \<noteq> won" using assms by (auto simp: is_won_def split: if_splits sum.splits)
  show "state g = lost \<or> \<not> all_opened g"
    using assms every_opened_all_opened[of g k]
    by (auto simp: is_won_def split: if_splits sum.splits)
qed

lemma is_won_total:
  assumes "readable g"
  shows "\<exists>b g'. is_won k g = Inr (b, g')"
proof -
  have "\<forall>q \<in> set (sort_key k (non_mine_points g)). \<exists>b. is_opened g q = Inr b"
    using assms by (simp add: set_non_mine_points readable_def)
  from every_opened_total[OF this] obtain b where "every_opened g (sort_key k (non_mine_points g)) = Inr b" ..
  then show ?thesis by (cases b) (auto simp: is_won_def)
qed

lemma is_opened_update [simp]:
  "is_opened (g\<lparr>state := s\<rparr>) p = is_opened g p"
  "is_opened (g\<lparr>last_click := c\<rparr>) p = is_opened g p"
  "is_opened (g\<lparr>flagged_points := fs\<rparr>) p = is_opened g p"
  "is_opened (g\<lparr>questioned_points := qs\<rparr>) p = is_opened g p"
  "is_opened (g\<lparr>mine_points := ms\<rparr>) p = is_opened g p"
  by (rule is_opened_grid_only, simp)+

lemma state_update_same: "state g = s \<Longrightarrow> g\<lparr>state := s\<rparr> = g"
  by (cases g) simp

lemma is_won_wins: "is_won k g = Inr (b, g') \<Longrightarrow> b = wins g"
  using is_won_True[of k g g'] is_won_False[of k g g'] by (cases b) (auto simp: wins_def)

lemma is_won_result:
  assumes "is_won k g = Inr (b, g')"
  shows "g' = (if wins g then g\<lparr>state := won\<rparr> else g)"
proof (cases b)
  case True
  with assms have t: "is_won k g = Inr (True, g')" by simp
  then have "wins g" using is_won_wins by blast
  moreover from t have "g' = g\<lparr>state := won\<rparr>"
    using is_won_True[of k g g'] by (auto simp: state_update_same)
  ultimately show ?thesis by simp
next
  case False
  with assms have f: "is_won k g = Inr (False, g')" by simp
  then have "\<not> wins g" using is_won_wins by blast
  moreover from f have "g' = g" by (rule is_won_False(1))
  ultimately show ?thesis by simp
qed

lemma all_opened_same:
  assumes "size_wh g' = size_wh g" "mine_points g' = mine_points g"
    "cell_opened_grid g' = cell_opened_grid g"
  shows "all_opened g' = all_opened g"
  unfolding all_opened_def opened_def is_opened_grid_only[OF assms(3)]
    in_range_size[OF assms(1)] is_mine_mines[OF assms(2)] ..

lemma check_won_props:
  assumes "check_won k g = Inr g'"
  shows "size_wh g' = size_wh g" "mine_count g' = mine_count g" "mine_points g' = mine_points g"
    "last_click g' = last_click g" "cell_opened_grid g' = cell_opened_grid g"
    "state g' = (if wins g then won else state g)"
    "set (flagged_points g') = set (flagged_points g) \<union>
       (if wins g then {m \<in> set (mine_points g). is_opened g m = Inr False} else {})"
    "set (questioned_points g') = set (questioned_points g) -
       (if wins g then {m \<in> set (mine_points g). is_opened g m = Inr False} else {})"
    "wins g \<Longrightarrow> \<forall>m \<in> set (mine_points g). \<exists>b. is_opened g m = Inr b"
proof -
  from assms obtain b g1 where w: "is_won k g = Inr (b, g1)"
    and f: "if b then flag_all_mines k g1 = Inr g' else g' = g1"
    by (auto simp: check_won_def split: sum.splits if_splits)
  note b = is_won_wins[OF w] and g1 = is_won_result[OF w]
  have same: "\<And>m. is_opened g1 m = is_opened g m"
    by (rule is_opened_grid_only) (simp add: g1)
  show "size_wh g' = size_wh g" "mine_count g' = mine_count g" "mine_points g' = mine_points g"
    "last_click g' = last_click g" "cell_opened_grid g' = cell_opened_grid g"
    "state g' = (if wins g then won else state g)"
    "set (flagged_points g') = set (flagged_points g) \<union>
       (if wins g then {m \<in> set (mine_points g). is_opened g m = Inr False} else {})"
    "set (questioned_points g') = set (questioned_points g) -
       (if wins g then {m \<in> set (mine_points g). is_opened g m = Inr False} else {})"
    using f b g1 flag_each_fields[of "sort_key k (mine_points g1)" g1 g'] flag_each_marks[of "sort_key k (mine_points g1)" g1 g']
    by (auto simp: flag_all_mines_def same split: if_splits)
  show "\<forall>m \<in> set (mine_points g). \<exists>b. is_opened g m = Inr b" if "wins g"
  proof
    fix m assume m: "m \<in> set (mine_points g)"
    from that f b g1 have fe: "flag_each (sort_key k (mine_points g)) (g\<lparr>state := won\<rparr>) = Inr g'"
      by (simp add: flag_all_mines_def)
    have "\<And>ps g g'. flag_each ps g = Inr g' \<Longrightarrow> m \<in> set ps \<Longrightarrow> \<exists>b. is_opened g m = Inr b"
    proof -
      fix ps :: "point list" and g g' :: Game
      show "flag_each ps g = Inr g' \<Longrightarrow> m \<in> set ps \<Longrightarrow> \<exists>b. is_opened g m = Inr b"
      proof (induction ps arbitrary: g)
        case Nil
        then show ?case by simp
      next
        case (Cons p ps)
        from Cons.prems(1) obtain h where fl: "flag g p = Inr h" and r: "flag_each ps h = Inr g'"
          by (auto split: sum.splits)
        have same: "is_opened h m = is_opened g m"
          by (rule is_opened_grid_only) (rule flag_fields(6)[OF fl])
        show ?case
        proof (cases "m = p")
          case True
          with fl show ?thesis by (auto elim: flag_cases)
        next
          case False
          with Cons.prems(2) have "m \<in> set ps" by simp
          from Cons.IH[OF r this] same show ?thesis by simp
        qed
      qed
    qed
    moreover have "m \<in> set (sort_key k (mine_points g))" using m by simp
    ultimately have "\<exists>b. is_opened (g\<lparr>state := won\<rparr>) m = Inr b" using fe by blast
    moreover have "is_opened (g\<lparr>state := won\<rparr>) m = is_opened g m"
      by (rule is_opened_grid_only) simp
    ultimately show "\<exists>b. is_opened g m = Inr b" by simp
  qed
qed

lemma check_won_total:
  assumes "readable g" "mines_in_range g"
  shows "\<exists>g'. check_won k g = Inr g'"
proof -
  from is_won_total[OF assms(1)] obtain b g1 where w: "is_won k g = Inr (b, g1)" by blast
  note g1 = is_won_result[OF w]
  have same: "\<And>m. is_opened g1 m = is_opened g m"
    by (rule is_opened_grid_only) (simp add: g1)
  have "\<forall>m \<in> set (sort_key k (mine_points g1)). \<exists>b. is_opened g1 m = Inr b"
    using assms by (auto simp: same g1 readable_def mines_in_range_def)
  from flag_each_total[OF this] obtain g' where "flag_all_mines k g1 = Inr g'"
    by (auto simp: flag_all_mines_def)
  with w show ?thesis by (cases b) (simp_all add: check_won_def)
qed

section \<open>One turn of the flood fill\<close>

lemma set_opened_grid_shape:
  assumes "set_opened g p = Inr g'" "grid_shape g"
  shows "grid_shape g'"
proof -
  from assms(1) obtain i j where
    g': "cell_opened_grid g' = (cell_opened_grid g)[i := (cell_opened_grid g ! i)[j := True]]"
    and i: "i < length (cell_opened_grid g)"
    by (auto simp: set_opened_def split: sum.splits dest: py_index_Inr)
  have "length row = nat (fst (size_wh g))" if "row \<in> set (cell_opened_grid g')" for row
  proof -
    from that g' have "row \<in> insert ((cell_opened_grid g ! i)[j := True]) (set (cell_opened_grid g))"
      using set_update_subset_insert by fastforce
    then show ?thesis using assms(2) i by (auto simp: grid_shape_def)
  qed
  then show ?thesis
    using assms(2) g' set_opened_fields(1)[OF assms(1)] by (simp add: grid_shape_def)
qed

lemma grid_shape_same:
  "size_wh g' = size_wh g \<Longrightarrow> cell_opened_grid g' = cell_opened_grid g \<Longrightarrow>
   grid_shape g' = grid_shape g"
  by (simp add: grid_shape_def)

lemma visit_skip:
  assumes "visit k g p = Inr (g', new)" "is_opened g p = Inr True"
  shows "g' = g" "new = []"
  using assms by (simp_all add: visit_def)

lemma visit_grid:
  assumes v: "visit k g p = Inr (g', new)" and nn: "0 \<le> fst p" "0 \<le> snd p"
  shows "size_wh g' = size_wh g \<and> mine_points g' = mine_points g
    \<and> mine_count g' = mine_count g \<and> last_click g' = last_click g
    \<and> (\<forall>q. 0 \<le> fst q \<and> 0 \<le> snd q \<longrightarrow>
           is_opened g' q = (if q = p \<and> fillable g p then Inr True else is_opened g q))
    \<and> new = (if fillable g p \<and> proximity_count g p = 0
                then filter (in_range g) (neighbours p) else [])
    \<and> (grid_shape g \<longrightarrow> grid_shape g')"
  using v
proof (cases rule: visit_cases)
  case skip
  then show ?thesis by (simp add: fillable_def)
next
  case outside
  note cw = check_won_props[OF outside(4)]
  have "is_opened g' q = is_opened g q" for q
    by (rule is_opened_grid_only) (rule cw(5))
  moreover have "\<not> fillable g p" using outside(2) by (simp add: fillable_def)
  moreover have "grid_shape g' = grid_shape g" using cw(1,5) by (rule grid_shape_same)
  ultimately show ?thesis using cw(1-4) outside(3) by simp
next
  case (inside g1)
  note cw = check_won_props[OF inside(6)]
  note so = set_opened_fields[OF inside(4)]
  have op: "is_opened g' q = is_opened g1 q" for q
    by (rule is_opened_grid_only) (rule cw(5))
  have f: "fillable g p" using inside(1-3) by (simp add: fillable_def)
  have "grid_shape g' = grid_shape g1" using cw(1,5) by (rule grid_shape_same)
  then have gs: "grid_shape g \<longrightarrow> grid_shape g'"
    using set_opened_grid_shape[OF inside(4)] by simp
  have pc: "proximity_count g1 p = proximity_count g p"
    using so(1,4) by (rule proximity_count_same)
  have ir: "in_range g1 = in_range g"
    using so(1) by (simp add: fun_eq_iff in_range_def)
  have "\<forall>q. 0 \<le> fst q \<and> 0 \<le> snd q \<longrightarrow>
           is_opened g' q = (if q = p \<and> fillable g p then Inr True else is_opened g q)"
    using is_opened_set_opened[OF inside(4) nn] f by (simp add: op)
  then show ?thesis
    using cw(1-4) so f gs inside(5) pc ir by simp
qed

lemma check_won_marks:
  assumes cw: "check_won k g = Inr g'"
  shows "(state g' = won \<or> state g' = state g)
    \<and> (state g \<noteq> lost \<and> all_opened g' \<longrightarrow> state g' = won)
    \<and> (state g' = won \<longrightarrow> state g = won \<or> all_opened g')
    \<and> set (flagged_points g') = set (flagged_points g) \<union>
         (if state g' = won then {m \<in> set (mine_points g). is_opened g' m = Inr False} else {})
    \<and> set (questioned_points g') = set (questioned_points g) -
         (if state g' = won then {m \<in> set (mine_points g). is_opened g' m = Inr False} else {})
    \<and> (state g' = won \<longrightarrow> (\<forall>m \<in> set (mine_points g). \<exists>b. is_opened g' m = Inr b))"
proof -
  note p = check_won_props[OF cw]
  have op: "is_opened g' = is_opened g"
    by (rule ext) (rule is_opened_grid_only, rule p(5))
  have ao: "all_opened g' = all_opened g" using p(1,3,5) by (rule all_opened_same)
  have w: "wins g \<longleftrightarrow> state g' = won" using p(6) by (auto simp: wins_def)
  have s1: "state g' = won \<or> state g' = state g" using p(6) by simp
  have s2: "state g \<noteq> lost \<and> all_opened g' \<longrightarrow> state g' = won"
    using p(6) ao by (simp add: wins_def)
  have s3: "state g' = won \<longrightarrow> state g = won \<or> all_opened g'"
    using w ao by (auto simp: wins_def)
  have s4: "set (flagged_points g') = set (flagged_points g) \<union>
         (if state g' = won then {m \<in> set (mine_points g). is_opened g' m = Inr False} else {})"
    using p(7) unfolding w op .
  have s5: "set (questioned_points g') = set (questioned_points g) -
         (if state g' = won then {m \<in> set (mine_points g). is_opened g' m = Inr False} else {})"
    using p(8) unfolding w op .
  have s6: "state g' = won \<longrightarrow> (\<forall>m \<in> set (mine_points g). \<exists>b. is_opened g' m = Inr b)"
    using p(9) unfolding w op by blast
  from s1 s2 s3 s4 s5 s6 show ?thesis by blast
qed

lemma visit_marks:
  assumes v: "visit k g p = Inr (g', new)" and c: "is_opened g p = Inr False"
  shows "(state g' = won \<or> state g' = state g)
    \<and> (state g \<noteq> lost \<and> all_opened g' \<longrightarrow> state g' = won)
    \<and> (state g' = won \<longrightarrow> state g = won \<or> all_opened g')
    \<and> set (flagged_points g') = set (flagged_points g) \<union>
         (if state g' = won then {m \<in> set (mine_points g). is_opened g' m = Inr False} else {})
    \<and> set (questioned_points g') = set (questioned_points g) -
         (if state g' = won then {m \<in> set (mine_points g). is_opened g' m = Inr False} else {})
    \<and> (state g' = won \<longrightarrow> (\<forall>m \<in> set (mine_points g). \<exists>b. is_opened g' m = Inr b))"
  using v
proof (cases rule: visit_cases)
  case skip
  with c show ?thesis by simp
next
  case outside
  from check_won_marks[OF outside(4)] show ?thesis .
next
  case (inside g1)
  note so = set_opened_fields[OF inside(4)]
  from check_won_marks[OF inside(6)] show ?thesis unfolding so .
qed

lemma open_loop_total_rule:
  assumes "I g stack"
    and "\<And>g p stack. I g (p # stack) \<Longrightarrow> \<exists>g' new. visit k g p = Inr (g', new) \<and> I g' (stack @ new)"
  shows "\<exists>g'. open_loop k g stack = Inr g' \<and> I g' []"
  using assms
proof (induction k g stack rule: open_loop.induct)
  case (1 k g)
  then show ?case by simp
next
  case (2 k g p stack)
  from "2.prems"(2)[OF "2.prems"(1)] obtain g' new where v: "visit k g p = Inr (g', new)"
    and I: "I g' (stack @ new)" by blast
  from "2.IH"[OF v refl I "2.prems"(2)] show ?case using v by simp
qed

lemma open_loop_partial_rule:
  assumes "open_loop k g stack = Inr gf" "I g stack"
    and "\<And>g p stack g' new. I g (p # stack) \<Longrightarrow> visit k g p = Inr (g', new) \<Longrightarrow> I g' (stack @ new)"
  shows "I gf []"
  using assms
proof (induction k g stack rule: open_loop.induct)
  case (1 k g)
  then show ?case by simp
next
  case (2 k g p stack)
  from "2.prems"(1) obtain g' new where v: "visit k g p = Inr (g', new)"
    and r: "open_loop k g' (stack @ new) = Inr gf"
    by (auto split: sum.splits)
  from "2.IH"[OF v refl r "2.prems"(3)[OF "2.prems"(2) v] "2.prems"(3)] show ?case .
qed

lemma visit_is_opened:
  assumes "visit k g p = Inr (g', new)" "in_range g p" "in_range g q"
  shows "is_opened g' q = (if q = p \<and> fillable g p then Inr True else is_opened g q)"
proof -
  have nn: "0 \<le> fst p" "0 \<le> snd p" "0 \<le> fst q \<and> 0 \<le> snd q"
    using assms(2,3) by (simp_all add: in_range_def)
  from visit_grid[OF assms(1) nn(1,2)]
  have "\<forall>q. 0 \<le> fst q \<and> 0 \<le> snd q \<longrightarrow>
           is_opened g' q = (if q = p \<and> fillable g p then Inr True else is_opened g q)"
    by blast
  then show ?thesis using nn(3) by blast
qed

lemma visit_fields:
  assumes "visit k g p = Inr (g', new)" "in_range g p"
  shows "size_wh g' = size_wh g" "mine_points g' = mine_points g"
    "mine_count g' = mine_count g" "last_click g' = last_click g"
    "new = (if fillable g p \<and> proximity_count g p = 0
            then filter (in_range g) (neighbours p) else [])"
    "grid_shape g \<Longrightarrow> grid_shape g'"
proof -
  have nn: "0 \<le> fst p" "0 \<le> snd p" using assms(2) by (simp_all add: in_range_def)
  note G = visit_grid[OF assms(1) nn]
  show "size_wh g' = size_wh g" "mine_points g' = mine_points g"
    "mine_count g' = mine_count g" "last_click g' = last_click g"
    "new = (if fillable g p \<and> proximity_count g p = 0
            then filter (in_range g) (neighbours p) else [])"
    "grid_shape g \<Longrightarrow> grid_shape g'"
    using G by blast+
qed

lemma visit_opened_mono:
  assumes "visit k g p = Inr (g', new)" "in_range g p" "in_range g q" "opened g q"
  shows "opened g' q"
  using visit_is_opened[OF assms(1-3)] assms(4) by (simp add: opened_def)

lemma visit_in_range: 
  assumes "visit k g p = Inr (g', new)" "in_range g p"
  shows "in_range g' = in_range g"
  using visit_fields(1)[OF assms] by (simp add: in_range_def fun_eq_iff)

lemma visit_is_mine: 
  assumes "visit k g p = Inr (g', new)" "in_range g p"
  shows "is_mine g' = is_mine g"
  using visit_fields(2)[OF assms] by (simp add: is_mine_def fun_eq_iff)

lemma visit_all_opened_mono:
  assumes "visit k g p = Inr (g', new)" "in_range g p" "all_opened g"
  shows "all_opened g'"
  unfolding all_opened_def visit_in_range[OF assms(1,2)] visit_is_mine[OF assms(1,2)]
  using assms(3) visit_opened_mono[OF assms(1,2)] by (auto simp: all_opened_def)

lemma visit_board_inv:
  assumes v: "visit k g p = Inr (g', new)" and p: "in_range g p"
    and inv: "board_inv g" and st: "state g \<noteq> idle"
  shows "board_inv g' \<and> state g' \<noteq> idle \<and> (\<forall>q \<in> set new. in_range g' q)"
proof -
  note G = visit_fields[OF v p] and O = visit_is_opened[OF v p]
  have ir: "in_range g' = in_range g" by (rule visit_in_range[OF v p])
  have im: "is_mine g' = is_mine g" by (rule visit_is_mine[OF v p])
  have gs: "grid_shape g'" using G inv by (simp add: board_inv_def)
  have mr: "mines_in_range g'" using G inv ir by (simp add: board_inv_def mines_in_range_def)
  have mc: "mines_closed g'"
    unfolding mines_closed_def
  proof
    fix m assume m: "m \<in> set (mine_points g')"
    then have m': "m \<in> set (mine_points g)" using G by simp
    then have "in_range g m" "\<not> opened g m"
      using inv by (simp_all add: board_inv_def mines_in_range_def mines_closed_def)
    moreover have "\<not> (m = p \<and> fillable g p)" using m' by (auto simp: fillable_def is_mine_def)
    ultimately show "\<not> opened g' m" using O[of m] by (simp add: opened_def)
  qed
  have new: "\<forall>q \<in> set new. in_range g' q" using G ir by auto
  from v obtain b where b: "is_opened g p = Inr b"
    by (cases "is_opened g p") (simp_all add: visit_def)
  show ?thesis
  proof (cases b)
    case True
    with b v have "g' = g" by (simp add: visit_skip)
    with inv st new show ?thesis by simp
  next
    case False
    with b have c: "is_opened g p = Inr False" by simp
    note M = visit_marks[OF v c]
    have s: "state g' \<noteq> idle" using M st by auto
    have "all_opened g'" if "state g' = won"
    proof -
      from that M have "state g = won \<or> all_opened g'" by blast
      then show ?thesis
      proof
        assume "state g = won"
        then have "all_opened g" using inv by (simp add: board_inv_def)
        then show ?thesis by (rule visit_all_opened_mono[OF v p])
      qed
    qed
    with gs mr mc s new show ?thesis by (simp add: board_inv_def)
  qed
qed

lemma visit_marks_inv:
  assumes v: "visit k g p = Inr (g', new)" and p: "in_range g p"
    and mr: "mines_in_range g" and inv: "marks_inv g"
  shows "marks_inv g'"
proof -
  note O = visit_is_opened[OF v p]
  have ir: "in_range g' = in_range g" by (rule visit_in_range[OF v p])
  from v obtain b where b: "is_opened g p = Inr b"
    by (cases "is_opened g p") (simp_all add: visit_def)
  show ?thesis
  proof (cases b)
    case True
    with b v have "g' = g" by (simp add: visit_skip)
    with inv show ?thesis by simp
  next
    case False
    with b have c: "is_opened g p = Inr False" by simp
    note M = visit_marks[OF v c]
    define M' where "M' = (if state g' = won then {m \<in> set (mine_points g). is_opened g' m = Inr False} else {})"
    have F: "set (flagged_points g') = set (flagged_points g) \<union> M'"
      and Q: "set (questioned_points g') = set (questioned_points g) - M'"
      using M by (simp_all add: M'_def)
    have M'r: "\<forall>m \<in> M'. in_range g m \<and> \<not> opened g' m"
      using mr by (auto simp: M'_def mines_in_range_def opened_def split: if_splits)
    have old: "\<not> opened g' f" if "f \<in> set (flagged_points g)" for f
    proof -
      from that inv have "in_range g f" "\<not> opened g f" by (auto simp: marks_inv_def)
      moreover have "\<not> (f = p \<and> fillable g p)" using that by (auto simp: fillable_def is_flagged_def)
      ultimately show ?thesis using O[of f] by (simp add: opened_def)
    qed
    show ?thesis
      unfolding marks_inv_def F Q ir using inv M'r old by (auto simp: marks_inv_def)
  qed
qed

section \<open>Invariants of the reachable boards\<close>

lemmas inv_defs = board_inv_def marks_inv_def grid_shape_def mines_in_range_def mines_closed_def
  all_opened_def opened_def in_range_def is_mine_def

lemma is_opened_init: "is_opened (init sz mc) q \<noteq> Inr True"
  by (auto simp: is_opened_def init_def split: sum.splits dest!: py_index_Inr)

lemma init_inv: "board_inv (init sz mc) \<and> marks_inv (init sz mc)"
  using is_opened_init[of sz mc] by (simp add: inv_defs) (simp add: init_def)

lemma generate_board_in_range:
  assumes "generate_board g d r = Inr g'"
  shows "\<forall>m \<in> set (mine_points g'). in_range g m"
proof -
  from assms obtain possible mines where
    pm: "place_mines (nat (mine_count g)) 0 r (possible_points g d) [] = Inr (possible, mines)"
    and g': "g' = g\<lparr>mine_points := mines, state := playing, last_click := None\<rparr>"
    by (rule generate_board_cases)
  have "set possible \<union> set mines = set (possible_points g d) \<union> set []"
    using place_mines_Inr[OF pm distinct_possible_points] by simp
  then have "set mines \<subseteq> set (possible_points g d)" by auto
  then show ?thesis by (auto simp: g' set_possible_points)
qed

lemma generate_inv:
  assumes "generate_board g d r = Inr g'" "state g = idle" "board_inv g" "marks_inv g"
  shows "board_inv g' \<and> marks_inv g'"
proof -
  note ir = generate_board_in_range[OF assms(1)]
  from assms(1) obtain mines where
    g': "g' = g\<lparr>mine_points := mines, state := playing, last_click := None\<rparr>"
    by (auto elim: generate_board_cases)
  from ir g' have m: "\<forall>m \<in> set mines. in_range g m" by simp
  show ?thesis using assms(2-4) m unfolding g' by (auto simp: inv_defs)
qed

lemma flag_inv:
  assumes "flag g p = Inr g'" "in_range g p" "board_inv g" "marks_inv g"
  shows "board_inv g' \<and> marks_inv g'"
  using assms(1)
proof (cases rule: flag_cases)
  case opened
  with assms show ?thesis by simp
next
  case closed
  show ?thesis using assms(2-4) closed(1) unfolding closed(2) by (auto simp: inv_defs)
qed

lemma unflag_inv: "board_inv g \<Longrightarrow> marks_inv g \<Longrightarrow> board_inv (unflag g p) \<and> marks_inv (unflag g p)"
  by (auto simp: inv_defs unflag_def)

lemma unquestion_inv:
  "board_inv g \<Longrightarrow> marks_inv g \<Longrightarrow> board_inv (unquestion g p) \<and> marks_inv (unquestion g p)"
  by (auto simp: inv_defs unquestion_def)

lemma question_inv:
  "in_range g p \<Longrightarrow> board_inv g \<Longrightarrow> marks_inv g \<Longrightarrow>
   board_inv (question g p) \<and> marks_inv (question g p)"
  by (auto simp: inv_defs question_def)

lemma is_won_inv:
  assumes "is_won k g = Inr (b, g')" "board_inv g" "marks_inv g"
  shows "board_inv g' \<and> marks_inv g'"
proof (cases "wins g")
  case True
  then have "all_opened g" using assms(2) by (auto simp: wins_def board_inv_def)
  then have "all_opened (g\<lparr>state := won\<rparr>)" by (simp add: all_opened_def opened_def in_range_def is_mine_def)
  then show ?thesis using assms(2,3) True unfolding is_won_result[OF assms(1)]
    by (simp add: board_inv_def marks_inv_def grid_shape_def mines_in_range_def mines_closed_def
        opened_def in_range_def)
next
  case False
  then show ?thesis using assms(2,3) unfolding is_won_result[OF assms(1)] by simp
qed

lemma open_playing:
  assumes "state g = playing"
  shows "open k g p =
     (case is_opened g p of
        Inl e \<Rightarrow> Inl e
      | Inr b \<Rightarrow>
          if b \<or> is_flagged g p then Inr (g\<lparr>last_click := Some p\<rparr>)
          else if is_mine g p then Inr (g\<lparr>last_click := Some p, state := lost\<rparr>)
          else open_loop k (g\<lparr>last_click := Some p\<rparr>) [p])"
  using assms by (simp add: open_def Let_def is_flagged_def is_mine_def split: sum.splits)

lemma open_cases:
  assumes "open k g p = Inr g'"
  obtains (noop) "state g = playing" "g' = g\<lparr>last_click := Some p\<rparr>"
      "is_opened g p = Inr True \<or> is_flagged g p"
  | (mine) "state g = playing" "g' = g\<lparr>last_click := Some p, state := lost\<rparr>"
      "is_opened g p = Inr False" "\<not> is_flagged g p" "is_mine g p"
  | (fill) "state g = playing" "open_loop k (g\<lparr>last_click := Some p\<rparr>) [p] = Inr g'"
      "is_opened g p = Inr False" "\<not> is_flagged g p" "\<not> is_mine g p"
proof -
  from assms have st: "state g = playing" by (auto simp: open_def split: if_splits)
  from assms st obtain b where b: "is_opened g p = Inr b"
    by (cases "is_opened g p") (simp_all add: open_def)
  show thesis
  proof (cases "b \<or> is_flagged g p")
    case True
    with assms b have "g' = g\<lparr>last_click := Some p\<rparr>"
      by (auto simp: open_playing[OF st])
    with st True b show thesis using noop by auto
  next
    case False
    then have nb: "is_opened g p = Inr False" "\<not> is_flagged g p" using b by simp_all
    show thesis
    proof (cases "is_mine g p")
      case True
      with assms nb have "g' = g\<lparr>last_click := Some p, state := lost\<rparr>"
        by (simp add: open_playing[OF st])
      with st nb True show thesis using mine by simp
    next
      case False
      with assms nb have "open_loop k (g\<lparr>last_click := Some p\<rparr>) [p] = Inr g'"
        by (simp add: open_playing[OF st])
      with st nb False show thesis using fill by simp
    qed
  qed
qed

lemma last_click_inv:
  "board_inv (g\<lparr>last_click := c\<rparr>) = board_inv g" "marks_inv (g\<lparr>last_click := c\<rparr>) = marks_inv g"
  by (simp_all add: inv_defs)

lemma open_loop_inv:
  assumes "open_loop k g stack = Inr g'" "board_inv g" "marks_inv g" "state g \<noteq> idle"
    "\<forall>q \<in> set stack. in_range g q"
  shows "board_inv g' \<and> marks_inv g' \<and> state g' \<noteq> idle"
proof -
  let ?I = "\<lambda>g stack. board_inv g \<and> marks_inv g \<and> state g \<noteq> idle \<and> (\<forall>q \<in> set stack. in_range g q)"
  have "?I g' []"
  proof (rule open_loop_partial_rule[where I = ?I, OF assms(1)])
    show "?I g stack" using assms(2-5) by simp
  next
    fix g p stack g' new
    assume I: "?I g (p # stack)" and v: "visit k g p = Inr (g', new)"
    then have p: "in_range g p" by simp
    from visit_board_inv[OF v p] I
    have b: "board_inv g'" "state g' \<noteq> idle" "\<forall>q \<in> set new. in_range g' q" by simp_all
    from I have "mines_in_range g" by (simp add: board_inv_def)
    from visit_marks_inv[OF v p this] I have m: "marks_inv g'" by simp
    from I have "\<forall>q \<in> set stack. in_range g' q" by (simp add: visit_in_range[OF v p])
    with b m show "?I g' (stack @ new)" by auto
  qed
  then show ?thesis by simp
qed

lemma open_inv:
  assumes "open k g p = Inr g'" "in_range g p" "board_inv g" "marks_inv g"
  shows "board_inv g' \<and> marks_inv g'"
  using assms(1)
proof (cases rule: open_cases)
  case noop
  with assms(3,4) show ?thesis by (simp add: last_click_inv)
next
  case mine
  with assms(3,4) show ?thesis by (simp add: inv_defs)
next
  case fill
  have "in_range (g\<lparr>last_click := Some p\<rparr>) p" using assms(2) by (simp add: in_range_def)
  with open_loop_inv[OF fill(2)] assms(3,4) fill(1) show ?thesis
    by (simp add: last_click_inv)
qed

lemma reachable_inv: "reachable g \<Longrightarrow> board_inv g \<and> marks_inv g"
proof (induction rule: reachable.induct)
  case (reach_init sz mc)
  show ?case by (rule init_inv)
next
  case (reach_generate g d r g')
  then show ?case using generate_inv by blast
next
  case (reach_open g p g')
  then show ?case using open_inv by blast
next
  case (reach_flag g p g')
  then show ?case using flag_inv by blast
next
  case (reach_unflag g p)
  then show ?case using unflag_inv by blast
next
  case (reach_question g p)
  then show ?case using question_inv by blast
next
  case (reach_unquestion g p)
  then show ?case using unquestion_inv by blast
next
  case (reach_is_won g b g')
  then show ?case using is_won_inv by blast
qed

lemma board_inv_base: "board_inv g \<Longrightarrow> base_inv g"
  by (simp add: board_inv_def base_inv_def)


lemma visit_base_inv:
  assumes v: "visit k g p = Inr (g', new)" and p: "in_range g p" and inv: "base_inv g"
  shows "base_inv g' \<and> (\<forall>q \<in> set new. in_range g' q)"
proof -
  note G = visit_fields[OF v p]
  have ir: "in_range g' = in_range g" by (rule visit_in_range[OF v p])
  have gs: "grid_shape g'" using G inv by (simp add: base_inv_def)
  have mr: "mines_in_range g'" using G inv ir by (simp add: base_inv_def mines_in_range_def)
  have new: "\<forall>q \<in> set new. in_range g' q" using G ir by auto
  from v obtain b where b: "is_opened g p = Inr b"
    by (cases "is_opened g p") (simp_all add: visit_def)
  show ?thesis
  proof (cases b)
    case True
    with b v have "g' = g" by (simp add: visit_skip)
    with inv new show ?thesis by simp
  next
    case False
    with b have c: "is_opened g p = Inr False" by simp
    note M = visit_marks[OF v c]
    have "all_opened g'" if "state g' = won"
    proof -
      from that M have "state g = won \<or> all_opened g'" by blast
      then show ?thesis
      proof
        assume "state g = won"
        then have "all_opened g" using inv by (simp add: base_inv_def)
        then show ?thesis by (rule visit_all_opened_mono[OF v p])
      qed
    qed
    with gs mr new show ?thesis by (simp add: base_inv_def)
  qed
qed

lemmas base_defs = base_inv_def marks_inv_def grid_shape_def mines_in_range_def
  all_opened_def opened_def in_range_def is_mine_def

lemma init_base_inv: "base_inv (init sz mc) \<and> marks_inv (init sz mc)"
  using init_inv[of sz mc] by (simp add: board_inv_base)

lemma generate_base_inv:
  assumes "generate_board g d r = Inr g'" "base_inv g" "marks_inv g"
  shows "base_inv g' \<and> marks_inv g'"
proof -
  note ir = generate_board_in_range[OF assms(1)]
  from assms(1) obtain mines where
    g': "g' = g\<lparr>mine_points := mines, state := playing, last_click := None\<rparr>"
    by (auto elim: generate_board_cases)
  from ir g' have m: "\<forall>m \<in> set mines. in_range g m" by simp
  show ?thesis using assms(2,3) m unfolding g' by (auto simp: base_defs)
qed

lemma flag_base_inv:
  assumes "flag g p = Inr g'" "in_range g p" "base_inv g" "marks_inv g"
  shows "base_inv g' \<and> marks_inv g'"
  using assms(1)
proof (cases rule: flag_cases)
  case opened
  with assms show ?thesis by simp
next
  case closed
  show ?thesis using assms(2-4) closed(1) unfolding closed(2) by (auto simp: base_defs)
qed

lemma unflag_base_inv:
  "base_inv g \<Longrightarrow> marks_inv g \<Longrightarrow> base_inv (unflag g p) \<and> marks_inv (unflag g p)"
  by (auto simp: base_defs unflag_def)

lemma unquestion_base_inv:
  "base_inv g \<Longrightarrow> marks_inv g \<Longrightarrow> base_inv (unquestion g p) \<and> marks_inv (unquestion g p)"
  by (auto simp: base_defs unquestion_def)

lemma question_base_inv:
  "in_range g p \<Longrightarrow> base_inv g \<Longrightarrow> marks_inv g \<Longrightarrow>
   base_inv (question g p) \<and> marks_inv (question g p)"
  by (auto simp: base_defs question_def)

lemma is_won_base_inv:
  assumes "is_won k g = Inr (b, g')" "base_inv g" "marks_inv g"
  shows "base_inv g' \<and> marks_inv g'"
proof (cases "wins g")
  case True
  then have "all_opened g" using assms(2) by (auto simp: wins_def base_inv_def)
  then have "all_opened (g\<lparr>state := won\<rparr>)" by (simp add: all_opened_def opened_def in_range_def is_mine_def)
  then show ?thesis using assms(2,3) True unfolding is_won_result[OF assms(1)]
    by (simp add: base_inv_def marks_inv_def grid_shape_def mines_in_range_def
        opened_def in_range_def)
next
  case False
  then show ?thesis using assms(2,3) unfolding is_won_result[OF assms(1)] by simp
qed

lemma last_click_base_inv: "base_inv (g\<lparr>last_click := c\<rparr>) = base_inv g"
  by (simp add: base_defs)

lemma open_loop_base_inv:
  assumes "open_loop k g stack = Inr g'" "base_inv g" "marks_inv g"
    "\<forall>q \<in> set stack. in_range g q"
  shows "base_inv g' \<and> marks_inv g'"
proof -
  let ?I = "\<lambda>g stack. base_inv g \<and> marks_inv g \<and> (\<forall>q \<in> set stack. in_range g q)"
  have "?I g' []"
  proof (rule open_loop_partial_rule[where I = ?I, OF assms(1)])
    show "?I g stack" using assms(2-4) by simp
  next
    fix g p stack g' new
    assume I: "?I g (p # stack)" and v: "visit k g p = Inr (g', new)"
    then have p: "in_range g p" by simp
    from visit_base_inv[OF v p] I
    have b: "base_inv g'" "\<forall>q \<in> set new. in_range g' q" by simp_all
    from I have "mines_in_range g" by (simp add: base_inv_def)
    from visit_marks_inv[OF v p this] I have m: "marks_inv g'" by simp
    from I have "\<forall>q \<in> set stack. in_range g' q" by (simp add: visit_in_range[OF v p])
    with b m show "?I g' (stack @ new)" by auto
  qed
  then show ?thesis by simp
qed

lemma open_base_inv:
  assumes "open k g p = Inr g'" "in_range g p" "base_inv g" "marks_inv g"
  shows "base_inv g' \<and> marks_inv g'"
  using assms(1)
proof (cases rule: open_cases)
  case noop
  with assms(3,4) show ?thesis by (simp add: last_click_inv last_click_base_inv)
next
  case mine
  with assms(3,4) show ?thesis by (simp add: base_defs)
next
  case fill
  have "in_range (g\<lparr>last_click := Some p\<rparr>) p" using assms(2) by (simp add: in_range_def)
  with open_loop_base_inv[OF fill(2)] assms(3,4) show ?thesis
    by (simp add: last_click_inv last_click_base_inv)
qed

lemma engine_reachable_inv: "engine_reachable g \<Longrightarrow> base_inv g \<and> marks_inv g"
proof (induction rule: engine_reachable.induct)
  case (er_init sz mc)
  show ?case by (rule init_base_inv)
next
  case (er_generate g d r g')
  then show ?case using generate_base_inv by blast
next
  case (er_open g p k g')
  then show ?case using open_base_inv by blast
next
  case (er_flag g p g')
  then show ?case using flag_base_inv by blast
next
  case (er_unflag g p)
  then show ?case using unflag_base_inv by blast
next
  case (er_question g p)
  then show ?case using question_base_inv by blast
next
  case (er_unquestion g p)
  then show ?case using unquestion_base_inv by blast
next
  case (er_is_won g k b g')
  then show ?case using is_won_base_inv by blast
qed

text \<open>
  C7, as the code has it: on every board that a sequence of the engine's operations at
  in-range points builds, generation in any state included, no point is both flagged and
  questioned, every flagged or questioned point is in range, and no flagged point is
  opened. A questioned point can be opened: \<^verbatim>\<open>open\<close> neither skips a questioned cell
  nor removes its mark; and \<^verbatim>\<open>question\<close> at a point out of range stores that point.
\<close>

theorem marks_invariant:
  assumes "engine_reachable g"
  shows "set (flagged_points g) \<inter> set (questioned_points g) = {}
    \<and> (\<forall>p \<in> set (flagged_points g) \<union> set (questioned_points g). in_range g p)
    \<and> (\<forall>p \<in> set (flagged_points g). \<not> opened g p)"
  using engine_reachable_inv[OF assms] by (simp add: marks_inv_def)

theorem marks_invariant_witness:
  "engine_reachable (question \<lparr>size_wh = (2, 3), mine_count = 2, state = playing,
        mine_points = [(0, 1), (0, 0)], questioned_points = [],
        flagged_points = [(1, 1)], last_click = Some (1, 0),
        cell_opened_grid = [[False, False], [True, False], [False, False]]\<rparr> (0, 0))
   \<and> set (flagged_points (question \<lparr>size_wh = (2, 3), mine_count = 2, state = playing,
        mine_points = [(0, 1), (0, 0)], questioned_points = [],
        flagged_points = [(1, 1)], last_click = Some (1, 0),
        cell_opened_grid = [[False, False], [True, False], [False, False]]\<rparr> (0, 0)))
     \<inter> set (questioned_points (question \<lparr>size_wh = (2, 3), mine_count = 2, state = playing,
        mine_points = [(0, 1), (0, 0)], questioned_points = [],
        flagged_points = [(1, 1)], last_click = Some (1, 0),
        cell_opened_grid = [[False, False], [True, False], [False, False]]\<rparr> (0, 0))) = {}
   \<and> \<not> opened (question \<lparr>size_wh = (2, 3), mine_count = 2, state = playing,
        mine_points = [(0, 1), (0, 0)], questioned_points = [],
        flagged_points = [(1, 1)], last_click = Some (1, 0),
        cell_opened_grid = [[False, False], [True, False], [False, False]]\<rparr> (0, 0)) (1, 1)"
proof -
  let ?a = "(init (2, 3) 2)\<lparr>mine_points := [(1, 2), (1, 1)], state := playing\<rparr>"
  let ?g = "(init (2, 3) 2)\<lparr>mine_points := [(0, 1), (0, 0)], state := playing\<rparr>"
  let ?h = "\<lparr>size_wh = (2, 3), mine_count = 2, state = playing,
        mine_points = [(0, 1), (0, 0)], questioned_points = [],
        flagged_points = [(1, 1)], last_click = Some (1, 0),
        cell_opened_grid = [[False, False], [True, False], [False, False]]\<rparr>"
  have gen0: "generate_board (init (2, 3) 2) None (\<lambda>_. 4) = Inr ?a" by code_simp
  have r0: "engine_reachable ?a" by (rule er_generate[OF er_init gen0])
  have gen: "generate_board ?a None (\<lambda>_. 0) = Inr ?g" by code_simp
  have r: "engine_reachable ?g" by (rule er_generate[OF r0 gen])
  have f: "flag ?g (1, 1) = Inr (?g\<lparr>flagged_points := [(1, 1)]\<rparr>)" by code_simp
  have r1: "engine_reachable (?g\<lparr>flagged_points := [(1, 1)]\<rparr>)"
    by (rule er_flag[OF r _ f]) (simp add: in_range_def init_def)
  have o: "open (\<lambda>p. if p = (1, 1) then 0 else 1) (?g\<lparr>flagged_points := [(1, 1)]\<rparr>) (1, 0) = Inr ?h"
    by code_simp
  have r2: "engine_reachable ?h"
    by (rule er_open[OF r1 _ o]) (simp add: in_range_def init_def)
  have r3: "engine_reachable (question ?h (0, 0))"
    by (rule er_question[OF r2]) (simp add: in_range_def)
  have m: "(1, 1) \<in> set (flagged_points (question ?h (0, 0)))"
    by (simp add: question_def)
  from marks_invariant[OF r3] m r3 show ?thesis by blast
qed

theorem marks_invariant_counterexample:
  "engine_reachable \<lparr>size_wh = (2, 2), mine_count = 1, state = playing,
        mine_points = [(1, 1)], questioned_points = [(0, 0)],
        flagged_points = [], last_click = Some (0, 0),
        cell_opened_grid = [[True, False], [False, False]]\<rparr>
   \<and> (0, 0) \<in> set (questioned_points \<lparr>size_wh = (2, 2), mine_count = 1, state = playing,
        mine_points = [(1, 1)], questioned_points = [(0, 0)],
        flagged_points = [], last_click = Some (0, 0),
        cell_opened_grid = [[True, False], [False, False]]\<rparr>)
   \<and> opened \<lparr>size_wh = (2, 2), mine_count = 1, state = playing,
        mine_points = [(1, 1)], questioned_points = [(0, 0)],
        flagged_points = [], last_click = Some (0, 0),
        cell_opened_grid = [[True, False], [False, False]]\<rparr> (0, 0)
   \<and> \<not> in_range \<lparr>size_wh = (2, 2), mine_count = 1, state = playing,
        mine_points = [(1, 1)], questioned_points = [(0, 0)],
        flagged_points = [], last_click = Some (0, 0),
        cell_opened_grid = [[True, False], [False, False]]\<rparr> (5, 5)
   \<and> (5, 5) \<in> set (questioned_points (question \<lparr>size_wh = (2, 2), mine_count = 1,
        state = playing, mine_points = [(1, 1)], questioned_points = [(0, 0)],
        flagged_points = [], last_click = Some (0, 0),
        cell_opened_grid = [[True, False], [False, False]]\<rparr> (5, 5)))"
proof -
  let ?g = "(init (2, 2) 1)\<lparr>mine_points := [(1, 1)], state := playing\<rparr>"
  let ?h = "\<lparr>size_wh = (2, 2), mine_count = 1, state = playing,
        mine_points = [(1, 1)], questioned_points = [(0, 0)],
        flagged_points = [], last_click = Some (0, 0),
        cell_opened_grid = [[True, False], [False, False]]\<rparr>"
  have gen: "generate_board (init (2, 2) 1) (Some [(0, 0)]) (\<lambda>_. 2) = Inr ?g" by code_simp
  have r: "engine_reachable ?g" by (rule er_generate[OF er_init gen])
  have r1: "engine_reachable (question ?g (0, 0))"
    by (rule er_question[OF r]) (simp add: in_range_def init_def)
  have o: "open (\<lambda>_. 0) (question ?g (0, 0)) (0, 0) = Inr ?h" by code_simp
  have r2: "engine_reachable ?h"
    by (rule er_open[OF r1 _ o]) (simp add: in_range_def init_def question_def)
  have "opened ?h (0, 0)" by code_simp
  moreover have "\<not> in_range ?h (5, 5)" by (simp add: in_range_def)
  moreover have "(5, 5) \<in> set (questioned_points (question ?h (5, 5)))"
    by (simp add: question_def)
  ultimately show ?thesis using r2 by simp
qed

section \<open>Winning\<close>

lemma readable_square:
  assumes "grid_shape g" "square g"
  shows "readable g"
  unfolding readable_def
proof (intro allI impI)
  fix q assume q: "in_range g q"
  then have nn: "0 \<le> fst q" "0 \<le> snd q" by (simp_all add: in_range_def)
  have i: "nat (fst q) < length (cell_opened_grid g)"
    using q assms by (simp add: in_range_def grid_shape_def square_def)
  then have "cell_opened_grid g ! nat (fst q) \<in> set (cell_opened_grid g)" by simp
  then have "length (cell_opened_grid g ! nat (fst q)) = nat (fst (size_wh g))"
    using assms(1) by (simp add: grid_shape_def)
  then have "nat (snd q) < length (cell_opened_grid g ! nat (fst q))"
    using q assms(2) by (simp add: in_range_def square_def)
  with i show "\<exists>b. is_opened g q = Inr b" by (simp add: is_opened_nonneg[OF nn])
qed







section \<open>Square boards and the index error\<close>

lemma readableD: "readable g \<Longrightarrow> in_range g q \<Longrightarrow> \<exists>b. is_opened g q = Inr b"
  unfolding readable_def by blast

lemma visit_total:
  assumes "readable g" "mines_in_range g" "in_range g p"
  shows "\<exists>g' new. visit k g p = Inr (g', new)"
proof -
  from readableD[OF assms(1,3)] obtain b where b: "is_opened g p = Inr b" ..
  show ?thesis
  proof (cases "b \<or> is_mine g p \<or> is_flagged g p")
    case True
    from check_won_total[OF assms(1,2)] obtain g' where "check_won k g = Inr g'" ..
    with True b show ?thesis by (auto simp: visit_def)
  next
    case False
    from set_opened_total[OF b] obtain g1 where g1: "set_opened g p = Inr g1" ..
    have nn: "0 \<le> fst p" "0 \<le> snd p" using assms(3) by (simp_all add: in_range_def)
    note f = set_opened_fields[OF g1]
    have "readable g1"
      unfolding readable_def
    proof (intro allI impI)
      fix q assume "in_range g1 q"
      then have q: "in_range g q" using f(1) by (simp add: in_range_def)
      then have "0 \<le> fst q" "0 \<le> snd q" by (simp_all add: in_range_def)
      from is_opened_set_opened[OF g1 nn this] readableD[OF assms(1) q]
      show "\<exists>b. is_opened g1 q = Inr b" by auto
    qed
    moreover have "mines_in_range g1"
      using assms(2) f(1,4) by (simp add: mines_in_range_def in_range_def)
    ultimately obtain g' where "check_won k g1 = Inr g'" using check_won_total by blast
    with False b g1 show ?thesis by (auto simp: visit_def Let_def)
  qed
qed

lemma visit_readable:
  assumes v: "visit k g p = Inr (g', new)" and p: "in_range g p" and r: "readable g"
  shows "readable g'"
  unfolding readable_def visit_in_range[OF v p]
proof (intro allI impI)
  fix q assume q: "in_range g q"
  from visit_is_opened[OF v p q] readableD[OF r q]
  show "\<exists>b. is_opened g' q = Inr b" by auto
qed

lemma open_loop_total:
  assumes "board_inv g" "readable g" "state g \<noteq> idle" "\<forall>q \<in> set stack. in_range g q"
  shows "\<exists>g'. open_loop k g stack = Inr g'"
proof -
  let ?I = "\<lambda>g stack. board_inv g \<and> readable g \<and> state g \<noteq> idle \<and> (\<forall>q \<in> set stack. in_range g q)"
  have "\<exists>g'. open_loop k g stack = Inr g' \<and> ?I g' []"
  proof (rule open_loop_total_rule[where I = ?I])
    show "?I g stack" using assms by simp
  next
    fix g p stack
    assume I: "?I g (p # stack)"
    then have p: "in_range g p" and mr: "mines_in_range g" by (simp_all add: board_inv_def)
    from visit_total[OF _ mr p] I obtain g' new where v: "visit k g p = Inr (g', new)" by blast
    from visit_board_inv[OF v p] I
    have "board_inv g'" "state g' \<noteq> idle" "\<forall>q \<in> set new. in_range g' q" by simp_all
    moreover have "readable g'" using visit_readable[OF v p] I by simp
    moreover from I have "\<forall>q \<in> set stack. in_range g' q" by (simp add: visit_in_range[OF v p])
    ultimately have "?I g' (stack @ new)" by auto
    with v show "\<exists>g' new. visit k g p = Inr (g', new) \<and> ?I g' (stack @ new)" by blast
  qed
  then show ?thesis by blast
qed

lemma open_no_index_error:
  assumes "board_inv g" "readable g" "in_range g p"
  shows "open k g p = Inl ValueError \<or> (\<exists>g'. open k g p = Inr g')"
proof (cases "state g = playing")
  case False
  then show ?thesis by (simp add: open_def)
next
  case True
  from readableD[OF assms(2,3)] obtain b where b: "is_opened g p = Inr b" ..
  let ?g0 = "g\<lparr>last_click := Some p\<rparr>"
  have "readable ?g0" using assms(2) by (simp add: readable_def in_range_def)
  moreover have "in_range ?g0 p" using assms(3) by (simp add: in_range_def)
  ultimately have "\<exists>g'. open_loop k ?g0 [p] = Inr g'"
    using assms(1) True by (intro open_loop_total) (simp_all add: last_click_inv)
  then show ?thesis using b by (auto simp: open_playing[OF True])
qed

text \<open>
  C5: on a reachable board whose width equals its height, \<^verbatim>\<open>is_opened\<close> returns at every
  in-range point, \<^verbatim>\<open>flag\<close> returns, and \<^verbatim>\<open>open\<close> returns or raises \<^verbatim>\<open>ValueError\<close> for a
  board that is not in the playing state, so none raises \<^verbatim>\<open>IndexError\<close>. On the new
  board of width 2 and height 1 the in-range point \<open>(1, 0)\<close> makes \<^verbatim>\<open>is_opened\<close> raise
  \<^verbatim>\<open>IndexError\<close>: the grid has one row of two entries and is read as \<open>grid[1][0]\<close>.
\<close>

theorem square_board_index_safe:
  "(\<forall>g p. reachable g \<and> square g \<and> in_range g p \<longrightarrow>
       (\<exists>b. is_opened g p = Inr b) \<and> (\<exists>g'. flag g p = Inr g')
       \<and> (open k g p = Inl ValueError \<or> (\<exists>g'. open k g p = Inr g')))
   \<and> (fst (size_wh (init (2, 1) 1)) \<noteq> snd (size_wh (init (2, 1) 1))
        \<and> reachable (init (2, 1) 1) \<and> in_range (init (2, 1) 1) (1, 0)
        \<and> is_opened (init (2, 1) 1) (1, 0) = Inl IndexError)"
proof (intro conjI allI impI)
  fix g p
  assume a: "reachable g \<and> square g \<and> in_range g p"
  then have inv: "board_inv g" using reachable_inv by blast
  then have r: "readable g" using a by (intro readable_square) (simp_all add: board_inv_def)
  with a obtain b where b: "is_opened g p = Inr b" using readableD by blast
  then show "\<exists>b. is_opened g p = Inr b" ..
  from b show "\<exists>g'. flag g p = Inr g'" by (cases b) (simp_all add: flag_def)
  from a show "open k g p = Inl ValueError \<or> (\<exists>g'. open k g p = Inr g')"
    by (intro open_no_index_error[OF inv r]) simp
next
  show "fst (size_wh (init (2, 1) 1)) \<noteq> snd (size_wh (init (2, 1) 1))" by (simp add: init_def)
  show "reachable (init (2, 1) 1)" by (rule reach_init)
  show "in_range (init (2, 1) 1) (1, 0)" by (simp add: init_def in_range_def)
  show "is_opened (init (2, 1) 1) (1, 0) = Inl IndexError" by code_simp
qed

theorem square_board_index_safe_witness:
  "reachable (init (2, 2) 1) \<and> square (init (2, 2) 1) \<and> in_range (init (2, 2) 1) (1, 1)
   \<and> (\<exists>b. is_opened (init (2, 2) 1) (1, 1) = Inr b)"
proof -
  have h: "reachable (init (2, 2) 1) \<and> square (init (2, 2) 1) \<and> in_range (init (2, 2) 1) (1, 1)"
    by (simp add: reach_init) (simp add: square_def in_range_def init_def)
  with square_board_index_safe show ?thesis by blast
qed

section \<open>The flood fill\<close>

lemma fill_in_range:
  assumes "in_range g p" "q \<in> fill g p"
  shows "in_range g q"
  using assms(2,1) by (induction rule: fill.induct) simp_all

lemma fill_fillable: "q \<in> fill g p \<Longrightarrow> fillable g q"
  by (induction rule: fill.induct) simp_all

lemma fill_inv_step:
  assumes I: "fill_inv g0 p g (p1 # stack)"
    and r0: "readable g0" and p: "in_range g0 p" "\<not> is_mine g0 p" "\<not> is_flagged g0 p"
  shows "\<exists>g' new. visit k g p1 = Inr (g', new) \<and> fill_inv g0 p g' (stack @ new)"
proof -
  from I have binv: "board_inv g" and rd: "readable g" and st: "state g \<noteq> idle"
    and sz: "size_wh g = size_wh g0" and ms: "mine_points g = mine_points g0"
    and fl: "\<And>q. \<not> is_mine g0 q \<Longrightarrow> is_flagged g q = is_flagged g0 q"
    and fm: "\<And>q. is_flagged g0 q \<Longrightarrow> is_flagged g q"
    and sk: "\<And>q. q \<in> set (p1 # stack) \<Longrightarrow> in_range g0 q \<and>
          (q = p \<or> (\<exists>r \<in> fill g0 p. proximity_count g0 r = 0 \<and> q \<in> set (neighbours r)))"
    and mono: "\<And>q. in_range g0 q \<Longrightarrow> opened g0 q \<Longrightarrow> opened g q"
    and sound: "\<And>q. in_range g0 q \<Longrightarrow> opened g q \<Longrightarrow> opened g0 q \<or> q \<in> fill g0 p"
    and closure: "\<And>r q. r \<in> fill g0 p \<Longrightarrow> opened g r \<Longrightarrow> proximity_count g0 r = 0 \<Longrightarrow>
          q \<in> set (neighbours r) \<Longrightarrow> in_range g0 q \<Longrightarrow>
          opened g q \<or> q \<in> set (p1 # stack) \<or> is_mine g0 q \<or> is_flagged g0 q"
    and start: "p \<in> set (p1 # stack) \<or> opened g p"
    unfolding fill_inv_def by blast+
  have ir: "in_range g = in_range g0" using sz by (simp add: in_range_def fun_eq_iff)
  have im: "is_mine g = is_mine g0" using ms by (simp add: is_mine_def fun_eq_iff)
  have pc: "proximity_count g = proximity_count g0"
    by (rule ext) (rule proximity_count_same[OF sz ms])
  have p10: "in_range g0 p1" using sk[of p1] by simp
  then have p1: "in_range g p1" by (simp add: ir)
  have mr: "mines_in_range g" using binv by (simp add: board_inv_def)
  from visit_total[OF rd mr p1] obtain g' new where v: "visit k g p1 = Inr (g', new)" by blast
  note O = visit_is_opened[OF v p1] and F = visit_fields[OF v p1]
  have ir': "in_range g' = in_range g0" using visit_in_range[OF v p1] ir by simp
  from visit_board_inv[OF v p1 binv st]
  have binv': "board_inv g'" and st': "state g' \<noteq> idle" by simp_all
  have rd': "readable g'" by (rule visit_readable[OF v p1 rd])
  have fills: "p1 \<in> fill g0 p" if f: "fillable g p1"
  proof -
    from readableD[OF r0 p10] obtain b where b: "is_opened g0 p1 = Inr b" ..
    have "\<not> b"
    proof
      assume b
      with b have "opened g0 p1" by (simp add: opened_def)
      with mono[of p1] p1 ir have "opened g p1" by simp
      with f show False by (simp add: fillable_def opened_def)
    qed
    with b f fl[of p1] im have f0: "fillable g0 p1" by (simp add: fillable_def)
    from sk[of p1] consider "p1 = p" | r where "r \<in> fill g0 p" "proximity_count g0 r = 0"
      "p1 \<in> set (neighbours r)" by auto
    then show ?thesis
    proof cases
      case 1
      with f0 show ?thesis by (auto intro: fill.fill_start)
    next
      case 2
      with f0 p1 ir show ?thesis by (auto intro: fill.fill_step)
    qed
  qed
  have opened': "opened g' q \<longleftrightarrow> (q = p1 \<and> fillable g p1) \<or> opened g q" if "in_range g0 q" for q
    using O[of q] that ir by (auto simp: opened_def)
  have fm': "is_flagged g' q" if fq: "is_flagged g0 q" for q
  proof -
    from v obtain b where b: "is_opened g p1 = Inr b"
      by (cases "is_opened g p1") (simp_all add: visit_def)
    show ?thesis
    proof (cases b)
      case True
      with b v have "g' = g" by (simp add: visit_skip)
      with fm[OF fq] show ?thesis by simp
    next
      case False
      with b have "is_opened g p1 = Inr False" by simp
      from visit_marks[OF v this]
      have "set (flagged_points g) \<subseteq> set (flagged_points g')" by blast
      with fm[OF fq] show ?thesis by (auto simp: is_flagged_def)
    qed
  qed
  have fl': "is_flagged g' q = is_flagged g0 q" if nm: "\<not> is_mine g0 q" for q
  proof -
    from v obtain b where b: "is_opened g p1 = Inr b"
      by (cases "is_opened g p1") (simp_all add: visit_def)
    show ?thesis
    proof (cases b)
      case True
      with b v have "g' = g" by (simp add: visit_skip)
      with fl[OF nm] show ?thesis by simp
    next
      case False
      with b have "is_opened g p1 = Inr False" by simp
      from visit_marks[OF v this]
      have "set (flagged_points g') = set (flagged_points g) \<union>
         (if state g' = won then {m \<in> set (mine_points g). is_opened g' m = Inr False} else {})"
        by blast
      with nm ms have "is_flagged g' q = is_flagged g q"
        by (auto simp: is_flagged_def is_mine_def split: if_splits)
      with fl[OF nm] show ?thesis by simp
    qed
  qed
  have new: "new = (if fillable g p1 \<and> proximity_count g0 p1 = 0
                    then filter (in_range g0) (neighbours p1) else [])"
    using F(5) ir pc by simp
  have "fill_inv g0 p g' (stack @ new)"
    unfolding fill_inv_def
  proof (intro conjI allI ballI impI)
    show "board_inv g'" "readable g'" "state g' \<noteq> idle" by (rule binv' rd' st')+
    show "size_wh g' = size_wh g0" "mine_points g' = mine_points g0" using F sz ms by simp_all
    show "is_flagged g' q = is_flagged g0 q" if "\<not> is_mine g0 q" for q by (rule fl'[OF that])
    show "is_flagged g' q" if "is_flagged g0 q" for q by (rule fm'[OF that])
  next
    fix q assume q: "q \<in> set (stack @ new)"
    show "in_range g0 q" using q sk[of q] new by (auto split: if_splits)
    show "q = p \<or> (\<exists>r \<in> fill g0 p. proximity_count g0 r = 0 \<and> q \<in> set (neighbours r))"
    proof (cases "q \<in> set stack")
      case True
      then show ?thesis using sk[of q] by simp
    next
      case False
      with q new have "fillable g p1" "proximity_count g0 p1 = 0" "q \<in> set (neighbours p1)"
        by (auto split: if_splits)
      with fills show ?thesis by blast
    qed
  next
    fix q assume "in_range g0 q \<and> opened g0 q"
    then show "opened g' q" using mono[of q] opened'[of q] by simp
  next
    fix q assume q: "in_range g0 q \<and> opened g' q"
    then show "opened g0 q \<or> q \<in> fill g0 p"
      using opened'[of q] sound[of q] fills by auto
  next
    fix r q
    assume r: "r \<in> fill g0 p" and a: "opened g' r \<and> proximity_count g0 r = 0"
      and q: "q \<in> set (neighbours r)" and qr: "in_range g0 q"
    have rr: "in_range g0 r" by (rule fill_in_range[OF p(1) r])
    show "opened g' q \<or> q \<in> set (stack @ new) \<or> is_mine g0 q \<or> is_flagged g0 q"
    proof (cases "opened g r")
      case True
      from closure[OF r True _ q qr] a
      consider "opened g q" | "q = p1" | "q \<in> set stack" | "is_mine g0 q \<or> is_flagged g0 q"
        by auto
      then show ?thesis
      proof cases
        case 1
        then show ?thesis using opened'[OF qr] by simp
      next
        case 2
        from readableD[OF rd p1] obtain b where b: "is_opened g p1 = Inr b" ..
        show ?thesis
        proof (cases "fillable g p1")
          case True
          then show ?thesis using opened'[OF qr] 2 by simp
        next
          case False
          show ?thesis
          proof (cases b)
            case True
            with b have "opened g q" using 2 by (simp add: opened_def)
            then show ?thesis using opened'[OF qr] by simp
          next
            case nb: False
            with b False have "is_mine g p1 \<or> is_flagged g p1" by (auto simp: fillable_def)
            then show ?thesis using 2 im fl[of p1] by auto
          qed
        qed
      next
        case 3
        then show ?thesis by simp
      next
        case 4
        then show ?thesis by blast
      qed
    next
      case False
      with a opened'[OF rr] have "r = p1" "fillable g p1" by auto
      with a new q qr show ?thesis by simp
    qed
  next
    show "p \<in> set (stack @ new) \<or> opened g' p"
    proof (cases "p \<in> set stack \<or> opened g p")
      case True
      then show ?thesis using opened'[OF p(1)] by auto
    next
      case False
      with start have e: "p = p1" by auto
      from readableD[OF rd p1] obtain b where b: "is_opened g p1 = Inr b" ..
      with False e have "is_opened g p1 = Inr False" by (cases b) (simp_all add: opened_def)
      with p(2,3) e im fl[of p] have "fillable g p1" by (simp add: fillable_def)
      with e show ?thesis using opened'[OF p(1)] by simp
    qed
  qed
  with v show ?thesis by blast
qed

lemma fill_inv_start:
  assumes "board_inv g" "readable g" "state g \<noteq> idle" "in_range g p"
  shows "fill_inv g p g [p]"
  unfolding fill_inv_def
proof (intro conjI allI ballI impI)
  fix r q assume "r \<in> fill g p" "opened g r \<and> proximity_count g r = 0"
  then have False using fill_fillable[of r g p] by (simp add: fillable_def opened_def)
  then show "opened g q \<or> q \<in> set [p] \<or> is_mine g q \<or> is_flagged g q" ..
qed (use assms in simp_all)

lemma fill_inv_final:
  assumes I: "fill_inv g0 p g []"
  shows "\<forall>q. in_range g0 q \<longrightarrow> (opened g q \<longleftrightarrow> opened g0 q \<or> q \<in> fill g0 p)"
proof (intro allI impI)
  fix q assume q: "in_range g0 q"
  from I have mono: "\<And>q. in_range g0 q \<Longrightarrow> opened g0 q \<Longrightarrow> opened g q"
    and sound: "\<And>q. in_range g0 q \<Longrightarrow> opened g q \<Longrightarrow> opened g0 q \<or> q \<in> fill g0 p"
    and closure: "\<And>r q. r \<in> fill g0 p \<Longrightarrow> opened g r \<Longrightarrow> proximity_count g0 r = 0 \<Longrightarrow>
          q \<in> set (neighbours r) \<Longrightarrow> in_range g0 q \<Longrightarrow>
          opened g q \<or> q \<in> set [] \<or> is_mine g0 q \<or> is_flagged g0 q"
    and start: "p \<in> set [] \<or> opened g p"
    unfolding fill_inv_def by blast+
  have "opened g r" if "r \<in> fill g0 p" for r
    using that
  proof (induction rule: fill.induct)
    case fill_start
    then show ?case using start by simp
  next
    case (fill_step r q)
    from closure[OF fill_step(1) fill_step(6) fill_step(2,3,4)] fill_step(5)
    show ?case by (simp add: fillable_def)
  qed
  with mono[OF q] sound[OF q] show "opened g q \<longleftrightarrow> opened g0 q \<or> q \<in> fill g0 p" by blast
qed

lemma open_loop_fill:
  assumes "board_inv g" "readable g" "state g \<noteq> idle" "in_range g p"
    "\<not> is_mine g p" "\<not> is_flagged g p"
  shows "\<exists>g'. open_loop k g [p] = Inr g'
     \<and> (\<forall>q. in_range g q \<longrightarrow> (opened g' q \<longleftrightarrow> opened g q \<or> q \<in> fill g p))
     \<and> mine_points g' = mine_points g
     \<and> (\<forall>q. is_flagged g q \<longrightarrow> is_flagged g' q)"
proof -
  have "\<exists>g'. open_loop k g [p] = Inr g' \<and> fill_inv g p g' []"
  proof (rule open_loop_total_rule[where I = "fill_inv g p"])
    show "fill_inv g p g [p]" by (rule fill_inv_start[OF assms(1-4)])
  next
    fix g1 p1 stack
    assume "fill_inv g p g1 (p1 # stack)"
    then show "\<exists>g' new. visit k g1 p1 = Inr (g', new) \<and> fill_inv g p g' (stack @ new)"
      by (rule fill_inv_step[OF _ assms(2,4,5,6)])
  qed
  then obtain g' where l: "open_loop k g [p] = Inr g'" and I: "fill_inv g p g' []" by blast
  from I have "mine_points g' = mine_points g" "\<forall>q. is_flagged g q \<longrightarrow> is_flagged g' q"
    unfolding fill_inv_def by blast+
  with l fill_inv_final[OF I] show ?thesis by blast
qed

lemma fill_cong:
  assumes "fillable g' = fillable g" "proximity_count g' = proximity_count g"
    "in_range g' = in_range g"
  shows "fill g' p = fill g p"
proof -
  have a: "q \<in> fill g p" if "q \<in> fill g' p" for q
    using that by (induction rule: fill.induct) (auto simp: assms intro: fill.intros)
  have b: "q \<in> fill g' p" if "q \<in> fill g p" for q
    using that by (induction rule: fill.induct) (auto simp: assms[symmetric] intro: fill.intros)
  from a b show ?thesis by blast
qed

lemma fill_last_click: "fill (g\<lparr>last_click := c\<rparr>) p = fill g p"
proof (rule fill_cong)
  show "fillable (g\<lparr>last_click := c\<rparr>) = fillable g"
    by (simp add: fun_eq_iff fillable_def is_mine_def is_flagged_def)
  show "proximity_count (g\<lparr>last_click := c\<rparr>) = proximity_count g"
    by (rule ext) (rule proximity_count_same, simp_all)
  show "in_range (g\<lparr>last_click := c\<rparr>) = in_range g"
    by (simp add: fun_eq_iff in_range_def)
qed

lemma fill_empty: "\<not> fillable g p \<Longrightarrow> fill g p = {}"
proof -
  assume n: "\<not> fillable g p"
  have "False" if "q \<in> fill g p" for q
    using that n by (induction rule: fill.induct) simp_all
  then show ?thesis by blast
qed

lemma fill_nonzero:
  assumes "proximity_count g p \<noteq> 0"
  shows "fill g p \<subseteq> {p}"
proof
  fix q assume "q \<in> fill g p"
  then show "q \<in> {p}" using assms by (induction rule: fill.induct) simp_all
qed

text \<open>
  C1, as the code has it: on a reachable square board in the playing state, \<^verbatim>\<open>open\<close> at
  an in-range point \<open>p\<close> that is neither a mine nor flagged returns, and an in-range cell
  is opened afterwards exactly when it was opened before or lies in \<open>fill g p\<close>: \<open>p\<close>
  itself when closed, and the closed, unflagged in-range neighbours of the region's cells
  of proximity count zero. Cells that were opened before the call are not expanded, so
  a zero cell joined to \<open>p\<close> only through such cells stays closed. No mine and no flagged
  point is opened, flags stay, the mines stay, and when \<open>p\<close> has a proximity count other
  than zero only \<open>p\<close> is opened.
\<close>

theorem open_flood_fill:
  assumes "reachable g" "square g" "state g = playing" "in_range g p"
    "\<not> is_mine g p" "\<not> is_flagged g p"
  shows "\<exists>g'. open k g p = Inr g'
     \<and> (\<forall>q. in_range g q \<longrightarrow> (opened g' q \<longleftrightarrow> opened g q \<or> q \<in> fill g p))
     \<and> (\<forall>q. is_mine g q \<or> is_flagged g q \<longrightarrow> \<not> opened g' q)
     \<and> (\<forall>q. is_flagged g q \<longrightarrow> is_flagged g' q)
     \<and> mine_points g' = mine_points g
     \<and> (proximity_count g p \<noteq> 0 \<longrightarrow> fill g p \<subseteq> {p})"
proof -
  note inv = reachable_inv[OF assms(1)]
  then have rd: "readable g" using assms(2) by (intro readable_square) (simp_all add: board_inv_def)
  from readableD[OF rd assms(4)] obtain b where b: "is_opened g p = Inr b" ..
  let ?g0 = "g\<lparr>last_click := Some p\<rparr>"
  have main: "\<exists>g'. open k g p = Inr g'
     \<and> (\<forall>q. in_range g q \<longrightarrow> (opened g' q \<longleftrightarrow> opened g q \<or> q \<in> fill g p))
     \<and> (\<forall>q. is_flagged g q \<longrightarrow> is_flagged g' q)
     \<and> mine_points g' = mine_points g"
  proof (cases b)
    case True
    with b assms(5,6) have "\<not> fillable g p" by (simp add: fillable_def)
    then have "fill g p = {}" by (rule fill_empty)
    moreover have "open k g p = Inr ?g0" using b True by (simp add: open_playing[OF assms(3)])
    ultimately show ?thesis by (simp add: opened_def is_flagged_def)
  next
    case False
    have o: "open k g p = open_loop k ?g0 [p]"
      using b False assms(5,6) by (simp add: open_playing[OF assms(3)])
    have "\<exists>g'. open_loop k ?g0 [p] = Inr g'
     \<and> (\<forall>q. in_range ?g0 q \<longrightarrow> (opened g' q \<longleftrightarrow> opened ?g0 q \<or> q \<in> fill ?g0 p))
     \<and> mine_points g' = mine_points ?g0
     \<and> (\<forall>q. is_flagged ?g0 q \<longrightarrow> is_flagged g' q)"
      by (rule open_loop_fill)
        (use inv rd assms(3-6) in \<open>simp_all add: last_click_inv readable_def in_range_def
            is_mine_def is_flagged_def\<close>)
    then obtain g' where l: "open_loop k ?g0 [p] = Inr g'"
      and a: "\<forall>q. in_range ?g0 q \<longrightarrow> (opened g' q \<longleftrightarrow> opened ?g0 q \<or> q \<in> fill ?g0 p)"
      and m: "mine_points g' = mine_points ?g0"
      and f: "\<forall>q. is_flagged ?g0 q \<longrightarrow> is_flagged g' q"
      by blast
    have e: "in_range ?g0 = in_range g" "opened ?g0 = opened g" "is_flagged ?g0 = is_flagged g"
      by (simp_all add: fun_eq_iff in_range_def opened_def is_flagged_def)
    from a have "\<forall>q. in_range g q \<longrightarrow> (opened g' q \<longleftrightarrow> opened g q \<or> q \<in> fill g p)"
      unfolding e fill_last_click .
    moreover from f have "\<forall>q. is_flagged g q \<longrightarrow> is_flagged g' q" unfolding e .
    moreover from m have "mine_points g' = mine_points g" by simp
    moreover from l have "open k g p = Inr g'" unfolding o .
    ultimately show ?thesis by blast
  qed
  then obtain g' where g': "open k g p = Inr g'"
    and op: "\<forall>q. in_range g q \<longrightarrow> (opened g' q \<longleftrightarrow> opened g q \<or> q \<in> fill g p)"
    and fl: "\<forall>q. is_flagged g q \<longrightarrow> is_flagged g' q"
    and ms: "mine_points g' = mine_points g" by blast
  have "reachable g'" using assms(1,4) g' by (rule reach_open)
  from reachable_inv[OF this] have "mines_closed g'" "\<forall>q \<in> set (flagged_points g'). \<not> opened g' q"
    by (simp_all add: board_inv_def marks_inv_def)
  with fl ms have "\<forall>q. is_mine g q \<or> is_flagged g q \<longrightarrow> \<not> opened g' q"
    by (auto simp: mines_closed_def is_mine_def is_flagged_def)
  with g' op fl ms fill_nonzero[of g p] show ?thesis by blast
qed

theorem open_flood_fill_witness:
  "reachable ((init (3, 3) 1)\<lparr>mine_points := [(2, 2)], state := playing\<rparr>)
   \<and> square ((init (3, 3) 1)\<lparr>mine_points := [(2, 2)], state := playing\<rparr>)
   \<and> (2, 0) \<in> fill ((init (3, 3) 1)\<lparr>mine_points := [(2, 2)], state := playing\<rparr>) (0, 0)
   \<and> (2, 2) \<notin> fill ((init (3, 3) 1)\<lparr>mine_points := [(2, 2)], state := playing\<rparr>) (0, 0)
   \<and> open (\<lambda>_. 0) ((init (3, 3) 1)\<lparr>mine_points := [(2, 2)], state := playing\<rparr>) (0, 0)
       = Inr \<lparr>size_wh = (3, 3), mine_count = 1, state = won, mine_points = [(2, 2)],
           questioned_points = [], flagged_points = [(2, 2)], last_click = Some (0, 0),
           cell_opened_grid = [[True, True, True], [True, True, True], [True, True, False]]\<rparr>"
proof -
  let ?g = "(init (3, 3) 1)\<lparr>mine_points := [(2, 2)], state := playing\<rparr>"
  let ?g' = "\<lparr>size_wh = (3, 3), mine_count = 1, state = won, mine_points = [(2, 2)],
           questioned_points = [], flagged_points = [(2, 2)], last_click = Some (0, 0),
           cell_opened_grid = [[True, True, True], [True, True, True], [True, True, False]]\<rparr>"
  have gen: "generate_board (init (3, 3) 1) (Some [(0, 0)]) (\<lambda>_. 7) = Inr ?g" by code_simp
  have idle: "state (init (3, 3) 1) = idle" by (simp add: init_def)
  have r: "reachable ?g" by (rule reach_generate[OF reach_init idle gen])
  have s: "square ?g" by (simp add: square_def init_def)
  have h: "state ?g = playing" "in_range ?g (0, 0)" "\<not> is_mine ?g (0, 0)" "\<not> is_flagged ?g (0, 0)"
    by (simp_all add: in_range_def is_mine_def is_flagged_def init_def)
  have o: "open (\<lambda>_. 0) ?g (0, 0) = Inr ?g'" by code_simp
  have c: "in_range ?g (2, 0)" "in_range ?g (2, 2)" "\<not> opened ?g (2, 0)" "\<not> opened ?g (2, 2)"
    "opened ?g' (2, 0)" "\<not> opened ?g' (2, 2)"
    by code_simp+
  from open_flood_fill[OF r s h, where k = "\<lambda>_. 0"] o
  have "\<forall>q. in_range ?g q \<longrightarrow> (opened ?g' q \<longleftrightarrow> opened ?g q \<or> q \<in> fill ?g (0, 0))"
    by auto
  with c have "(2, 0) \<in> fill ?g (0, 0)" "(2, 2) \<notin> fill ?g (0, 0)" by blast+
  with r s o show ?thesis by simp
qed

theorem open_flood_fill_counterexample:
  "reachable \<lparr>size_wh = (3, 3), mine_count = 1, state = playing, mine_points = [(2, 2)],
      questioned_points = [], flagged_points = [], last_click = Some (1, 0),
      cell_opened_grid = [[False, False, False], [True, False, False], [False, False, False]]\<rparr>
   \<and> proximity_count \<lparr>size_wh = (3, 3), mine_count = 1, state = playing, mine_points = [(2, 2)],
      questioned_points = [], flagged_points = [], last_click = Some (1, 0),
      cell_opened_grid = [[False, False, False], [True, False, False], [False, False, False]]\<rparr>
      (0, 0) = 0
   \<and> proximity_count \<lparr>size_wh = (3, 3), mine_count = 1, state = playing, mine_points = [(2, 2)],
      questioned_points = [], flagged_points = [], last_click = Some (1, 0),
      cell_opened_grid = [[False, False, False], [True, False, False], [False, False, False]]\<rparr>
      (1, 0) = 0
   \<and> proximity_count \<lparr>size_wh = (3, 3), mine_count = 1, state = playing, mine_points = [(2, 2)],
      questioned_points = [], flagged_points = [], last_click = Some (1, 0),
      cell_opened_grid = [[False, False, False], [True, False, False], [False, False, False]]\<rparr>
      (2, 0) = 0
   \<and> (1, 0) \<in> set (neighbours (0, 0)) \<and> (2, 0) \<in> set (neighbours (1, 0))
   \<and> open (\<lambda>_. 0) \<lparr>size_wh = (3, 3), mine_count = 1, state = playing, mine_points = [(2, 2)],
      questioned_points = [], flagged_points = [], last_click = Some (1, 0),
      cell_opened_grid = [[False, False, False], [True, False, False], [False, False, False]]\<rparr>
      (0, 0)
     = Inr \<lparr>size_wh = (3, 3), mine_count = 1, state = playing, mine_points = [(2, 2)],
      questioned_points = [], flagged_points = [], last_click = Some (0, 0),
      cell_opened_grid = [[True, True, True], [True, True, True], [False, False, False]]\<rparr>
   \<and> \<not> opened \<lparr>size_wh = (3, 3), mine_count = 1, state = playing, mine_points = [(2, 2)],
      questioned_points = [], flagged_points = [], last_click = Some (0, 0),
      cell_opened_grid = [[True, True, True], [True, True, True], [False, False, False]]\<rparr>
      (2, 0)"
proof -
  let ?b = "(init (3, 3) 1)\<lparr>mine_points := [(2, 2)], state := playing\<rparr>"
  let ?g = "\<lparr>size_wh = (3, 3), mine_count = 1, state = playing, mine_points = [(2, 2)],
      questioned_points = [], flagged_points = [], last_click = Some (1, 0),
      cell_opened_grid = [[False, False, False], [True, False, False], [False, False, False]]\<rparr>"
  have gen: "generate_board (init (3, 3) 1) (Some [(1, 0)]) (\<lambda>_. 7) = Inr ?b" by code_simp
  have idle: "state (init (3, 3) 1) = idle" by (simp add: init_def)
  have r0: "reachable ?b" by (rule reach_generate[OF reach_init idle gen])
  have ir: "\<And>g x y. size_wh g = (3, 3) \<Longrightarrow> x \<in> {0, 1, 2} \<Longrightarrow> y \<in> {0, 1, 2} \<Longrightarrow> in_range g (x, y)"
    by (auto simp: in_range_def)
  have f1: "flag ?b (0, 0) = Inr (?b\<lparr>flagged_points := [(0, 0)]\<rparr>)" by code_simp
  have r1: "reachable (?b\<lparr>flagged_points := [(0, 0)]\<rparr>)"
    by (rule reach_flag[OF r0 _ f1]) (simp add: in_range_def init_def)
  have f2: "flag (?b\<lparr>flagged_points := [(0, 0)]\<rparr>) (0, 1)
            = Inr (?b\<lparr>flagged_points := [(0, 1), (0, 0)]\<rparr>)" by code_simp
  have r2: "reachable (?b\<lparr>flagged_points := [(0, 1), (0, 0)]\<rparr>)"
    by (rule reach_flag[OF r1 _ f2]) (simp add: in_range_def init_def)
  have f3: "flag (?b\<lparr>flagged_points := [(0, 1), (0, 0)]\<rparr>) (1, 1)
            = Inr (?b\<lparr>flagged_points := [(1, 1), (0, 1), (0, 0)]\<rparr>)" by code_simp
  have r3: "reachable (?b\<lparr>flagged_points := [(1, 1), (0, 1), (0, 0)]\<rparr>)"
    by (rule reach_flag[OF r2 _ f3]) (simp add: in_range_def init_def)
  have f4: "flag (?b\<lparr>flagged_points := [(1, 1), (0, 1), (0, 0)]\<rparr>) (2, 1)
            = Inr (?b\<lparr>flagged_points := [(2, 1), (1, 1), (0, 1), (0, 0)]\<rparr>)" by code_simp
  have r4: "reachable (?b\<lparr>flagged_points := [(2, 1), (1, 1), (0, 1), (0, 0)]\<rparr>)"
    by (rule reach_flag[OF r3 _ f4]) (simp add: in_range_def init_def)
  have f5: "flag (?b\<lparr>flagged_points := [(2, 1), (1, 1), (0, 1), (0, 0)]\<rparr>) (2, 0)
            = Inr (?b\<lparr>flagged_points := [(2, 0), (2, 1), (1, 1), (0, 1), (0, 0)]\<rparr>)" by code_simp
  have r5: "reachable (?b\<lparr>flagged_points := [(2, 0), (2, 1), (1, 1), (0, 1), (0, 0)]\<rparr>)"
    by (rule reach_flag[OF r4 _ f5]) (simp add: in_range_def init_def)
  have o: "open (\<lambda>_. 0) (?b\<lparr>flagged_points := [(2, 0), (2, 1), (1, 1), (0, 1), (0, 0)]\<rparr>) (1, 0)
           = Inr (?g\<lparr>flagged_points := [(2, 0), (2, 1), (1, 1), (0, 1), (0, 0)]\<rparr>)" by code_simp
  have r6: "reachable (?g\<lparr>flagged_points := [(2, 0), (2, 1), (1, 1), (0, 1), (0, 0)]\<rparr>)"
    by (rule reach_open[OF r5 _ o]) (simp add: in_range_def init_def)
  have u: "unflag (unflag (unflag (unflag (unflag
              (?g\<lparr>flagged_points := [(2, 0), (2, 1), (1, 1), (0, 1), (0, 0)]\<rparr>)
              (0, 0)) (0, 1)) (1, 1)) (2, 1)) (2, 0) = ?g" by code_simp
  have "reachable (unflag (unflag (unflag (unflag (unflag
              (?g\<lparr>flagged_points := [(2, 0), (2, 1), (1, 1), (0, 1), (0, 0)]\<rparr>)
              (0, 0)) (0, 1)) (1, 1)) (2, 1)) (2, 0))"
    by (intro reach_unflag r6)
  then have r: "reachable ?g" unfolding u .
  have rest: "proximity_count ?g (0, 0) = 0 \<and> proximity_count ?g (1, 0) = 0
      \<and> proximity_count ?g (2, 0) = 0
      \<and> (1, 0) \<in> set (neighbours (0, 0)) \<and> (2, 0) \<in> set (neighbours (1, 0))
      \<and> open (\<lambda>_. 0) ?g (0, 0)
         = Inr \<lparr>size_wh = (3, 3), mine_count = 1, state = playing, mine_points = [(2, 2)],
      questioned_points = [], flagged_points = [], last_click = Some (0, 0),
      cell_opened_grid = [[True, True, True], [True, True, True], [False, False, False]]\<rparr>
      \<and> \<not> opened \<lparr>size_wh = (3, 3), mine_count = 1, state = playing, mine_points = [(2, 2)],
      questioned_points = [], flagged_points = [], last_click = Some (0, 0),
      cell_opened_grid = [[True, True, True], [True, True, True], [False, False, False]]\<rparr>
      (2, 0)"
    by code_simp
  from r rest show ?thesis by simp
qed

end
